theory Spec2Isabelle
  imports Complex_Main
begin

section \<open>Strings and numbers of the window's cells\<close>

text \<open>
  The window keeps one line edit per cell; the only part of a line edit the program reads
  or writes is its text. A cell is therefore modelled by its text, a row of the window's
  grid by the list of its cells' texts and the grid by the list of its rows
  (\<open>QList<QList<QLineEdit*>>\<close> in the source). The primitive grid handed to the solver is
  \<open>QVector<QVector<int>>\<close>.

  Characters are those of Isabelle's \<open>char\<close>; the program's inputs are written in ASCII
  (digits, the dot and letters).
\<close>

type_synonym UIGridRow = "string list"
type_synonym UIGrid = "UIGridRow list"
type_synonym GridRow = "int list"
type_synonym Grid = "GridRow list"

text \<open>\<open>QChar::digitValue\<close>: the value of a decimal digit, \<open>-1\<close> for any other character.\<close>

definition isDigit :: "char \<Rightarrow> bool" where
  "isDigit c = (48 \<le> (of_char c :: nat) \<and> (of_char c :: nat) \<le> 57)"

definition digitValue :: "char \<Rightarrow> int" where
  "digitValue c = (if isDigit c then int (of_char c) - 48 else -1)"

text \<open>\<open>QString::number(int)\<close>: the decimal numeral, with a minus sign below zero.\<close>

definition digitChar :: "nat \<Rightarrow> char" where
  "digitChar d = char_of (48 + d)"

fun decimal :: "nat \<Rightarrow> string" where
  "decimal n = (if n < 10 then [digitChar n] else decimal (n div 10) @ [digitChar (n mod 10)])"

declare decimal.simps [simp del]

definition number :: "int \<Rightarrow> string" where
  "number v = (if v < 0 then CHR ''-'' # decimal (nat (- v)) else decimal (nat v))"

text \<open>
  \<open>QString::toInt()\<close>: surrounding white space is skipped, one sign is accepted, the rest
  must be a non-empty run of decimal digits whose value fits a 32-bit \<open>int\<close>; any other
  text converts to \<open>0\<close>.
\<close>

definition isSpace :: "char \<Rightarrow> bool" where
  "isSpace c = ((of_char c :: nat) = 32 \<or> (9 \<le> (of_char c :: nat) \<and> (of_char c :: nat) \<le> 13))"

definition trimmed :: "string \<Rightarrow> string" where
  "trimmed s = rev (dropWhile isSpace (rev (dropWhile isSpace s)))"

definition digitsValue :: "string \<Rightarrow> nat" where
  "digitsValue ds = foldl (\<lambda>acc c. 10 * acc + nat (digitValue c)) 0 ds"

definition toInt :: "string \<Rightarrow> int" where
  "toInt s =
     (let t = trimmed s;
          neg = (t \<noteq> [] \<and> hd t = CHR ''-'');
          ds = (if t \<noteq> [] \<and> (hd t = CHR ''-'' \<or> hd t = CHR ''+'') then tl t else t);
          v = (if neg then - int (digitsValue ds) else int (digitsValue ds))
      in if ds \<noteq> [] \<and> list_all isDigit ds \<and> - (2 ^ 31) \<le> v \<and> v < 2 ^ 31 then v else 0)"

subsection \<open>Reading and writing one cell\<close>

text \<open>\<open>MainWindow::cellValue\<close>: an empty cell reads as \<open>-1\<close>.\<close>

definition cellValue :: "string \<Rightarrow> int" where
  "cellValue cell = (if cell = [] then -1 else toInt cell)"

text \<open>
  \<open>MainWindow::setCellValue\<close>: the result is the cell's new text; every value below one
  clears the cell.
\<close>

definition setCellValue :: "string \<Rightarrow> int \<Rightarrow> string" where
  "setCellValue cell v = (if v < 1 then [] else number v)"

section \<open>Conversions between the window's grid, the primitive grid and strings\<close>

text \<open>
  \<open>QList::at\<close> outside the list's range is an assertion failure; the model makes it an
  error value that records the failing access: \<open>RowOutOfRange i\<close> for \<open>grid.at(i)\<close>,
  \<open>CellOutOfRange i j\<close> for \<open>grid.at(i).at(j)\<close>.
\<close>

datatype error = RowOutOfRange nat | CellOutOfRange nat nat

text \<open>\<open>MainWindow::resetGrid\<close>\<close>

definition resetGrid :: "UIGrid \<Rightarrow> UIGrid" where
  "resetGrid g = map (map (\<lambda>cell. [])) g"

text \<open>\<open>MainWindow::UIGridToGrid\<close>: row by row, cell by cell, appending.\<close>

definition UIGridToGrid :: "UIGrid \<Rightarrow> Grid" where
  "UIGridToGrid g =
     fold (\<lambda>row sudoku. sudoku @ [fold (\<lambda>cell sudokuRow. sudokuRow @ [cellValue cell]) row []]) g []"

text \<open>
  \<open>MainWindow::stringGridToUIGrid\<close>: the loop over the characters of \<open>gridStr\<close>, with the
  cursor \<open>(i, j)\<close>. Each character is written to \<open>grid.at(i).at(j)\<close>; the column wraps at
  \<open>grid.size()\<close>.
\<close>

fun stringGridToUIGrid_from :: "nat \<Rightarrow> nat \<Rightarrow> string \<Rightarrow> UIGrid \<Rightarrow> error + UIGrid" where
  "stringGridToUIGrid_from i j [] g = Inr g"
| "stringGridToUIGrid_from i j (valueStr # rest) g =
     (if \<not> i < length g then Inl (RowOutOfRange i)
      else if \<not> j < length (g ! i) then Inl (CellOutOfRange i j)
      else
        (let g' = g[i := (g ! i)[j := setCellValue (g ! i ! j) (digitValue valueStr)]]
         in if Suc j \<ge> length g then stringGridToUIGrid_from (Suc i) 0 rest g'
            else stringGridToUIGrid_from i (Suc j) rest g'))"

definition stringGridToUIGrid :: "string \<Rightarrow> UIGrid \<Rightarrow> error + UIGrid" where
  "stringGridToUIGrid gridStr g = stringGridToUIGrid_from 0 0 gridStr g"

text \<open>\<open>MainWindow::UIGridToStringGrid\<close>\<close>

definition cellString :: "string \<Rightarrow> string" where
  "cellString cell = (let v = cellValue cell in if v < 1 then ''.'' else number v)"

definition UIGridToStringGrid :: "UIGrid \<Rightarrow> string" where
  "UIGridToStringGrid g =
     fold (\<lambda>row gridStr. fold (\<lambda>cell gridStr. gridStr @ cellString cell) row gridStr) g []"

text \<open>
  \<open>MainWindow::gridToUIGrid\<close>: the window's grid is cleared, then every cell of the
  primitive grid is written to the cell at the same position.
\<close>

fun gridToUIGrid_row :: "nat \<Rightarrow> nat \<Rightarrow> int list \<Rightarrow> UIGrid \<Rightarrow> error + UIGrid" where
  "gridToUIGrid_row i j [] g = Inr g"
| "gridToUIGrid_row i j (v # vs) g =
     (if \<not> i < length g then Inl (RowOutOfRange i)
      else if \<not> j < length (g ! i) then Inl (CellOutOfRange i j)
      else gridToUIGrid_row i (Suc j) vs (g[i := (g ! i)[j := setCellValue (g ! i ! j) v]]))"

fun gridToUIGrid_rows :: "nat \<Rightarrow> Grid \<Rightarrow> UIGrid \<Rightarrow> error + UIGrid" where
  "gridToUIGrid_rows i [] g = Inr g"
| "gridToUIGrid_rows i (r # rs) g =
     (case gridToUIGrid_row i 0 r g of
        Inl e \<Rightarrow> Inl e
      | Inr g' \<Rightarrow> gridToUIGrid_rows (Suc i) rs g')"

definition gridToUIGrid :: "Grid \<Rightarrow> UIGrid \<Rightarrow> error + UIGrid" where
  "gridToUIGrid sudoku g = gridToUIGrid_rows 0 sudoku (resetGrid g)"

section \<open>The window: creating the grid, importing, solving, testing\<close>

text \<open>
  The part of \<open>MainWindow\<close> that the operations below read or write: the grid of cells,
  the list \<open>sudokuGridWidgets\<close> (only its length matters: it is tested for emptiness
  and cleared) and the text of the status bar.
\<close>

record MainWindow =
  grid :: UIGrid
  sudokuGridWidgets :: nat
  statusBar :: string

text \<open>
  \<open>modf(sqrt(size), &intpart)\<close>: the argument is an \<open>int\<close>, below \<open>2 ^ 31\<close>. The root of a
  perfect square of that size is a whole number that a \<open>double\<close> holds exactly, and the
  \<open>double\<close> nearest to the root of any other number is not whole. The fractional part is
  therefore zero exactly for perfect squares, and \<open>intpart\<close> is then the exact root:
  \<open>wholeSqrt n\<close> is \<open>Some intpart\<close> in that case and \<open>None\<close> otherwise.
\<close>

definition wholeSqrt :: "nat \<Rightarrow> nat option" where
  "wholeSqrt n = find (\<lambda>k. k * k = n) [0..<Suc n]"

text \<open>
  \<open>MainWindow::generateGrid\<close>. Layout, fonts and validators are left out; each new cell
  is a line edit with empty text, appended to row \<open>i + si * columnsInRegion\<close> and to the
  widget list, and each region's frame is appended to the widget list. \<open>reserve\<close> only
  sets a capacity.
\<close>

definition addCell :: "nat \<Rightarrow> MainWindow \<Rightarrow> MainWindow" where
  "addCell rowIndex w =
     w\<lparr>grid := (grid w)[rowIndex := grid w ! rowIndex @ [[]]],
       sudokuGridWidgets := Suc (sudokuGridWidgets w)\<rparr>"

definition addRegion :: "nat \<Rightarrow> nat \<Rightarrow> MainWindow \<Rightarrow> MainWindow" where
  "addRegion columnsInRegion si w =
     (let w' = fold (\<lambda>i. fold (\<lambda>j. addCell (i + si * columnsInRegion)) [0..<columnsInRegion])
                 [0..<columnsInRegion] w
      in w'\<lparr>sudokuGridWidgets := Suc (sudokuGridWidgets w')\<rparr>)"

definition generateGrid :: "int \<Rightarrow> MainWindow \<Rightarrow> bool \<times> MainWindow" where
  "generateGrid sz w =
     (if sz < 4 then (False, w)
      else case wholeSqrt (nat sz) of
        None \<Rightarrow> (False, w)
      | Some intpart \<Rightarrow>
          (let w1 = (if sudokuGridWidgets w \<noteq> 0 then w\<lparr>grid := [], sudokuGridWidgets := 0\<rparr> else w);
               regionsPerRow = intpart;
               columnsInRegion = nat sz div regionsPerRow;
               w2 = w1\<lparr>grid := grid w1 @ replicate (nat sz) []\<rparr>
           in (True, fold (\<lambda>si. fold (\<lambda>sj. addRegion columnsInRegion si) [0..<regionsPerRow])
                       [0..<regionsPerRow] w2)))"

text \<open>The window as the constructor finds it, before its first \<open>generateGrid\<close>.\<close>

definition newWindow :: MainWindow where
  "newWindow = \<lparr>grid = [], sudokuGridWidgets = 0, statusBar = []\<rparr>"

text \<open>
  \<open>MainWindow::on_pushButtonImport_clicked\<close>. The dialog's answer is the pair of \<open>ok\<close>
  and \<open>text\<close>.
\<close>

definition on_pushButtonImport_clicked :: "bool \<Rightarrow> string \<Rightarrow> MainWindow \<Rightarrow> error + MainWindow" where
  "on_pushButtonImport_clicked ok text w =
     (if ok \<and> text \<noteq> [] then
        (let (generated, w1) =
               (if length text \<noteq> length (grid w) * length (grid w) then
                  (case wholeSqrt (length text) of
                     Some side \<Rightarrow> generateGrid (int side) w
                   | None \<Rightarrow> (False, w))
                else (True, w))
         in if generated then
              (case stringGridToUIGrid text (grid w1) of
                 Inl e \<Rightarrow> Inl e
               | Inr g \<Rightarrow> Inr (w1\<lparr>grid := g, statusBar := ''Imported!''\<rparr>))
            else Inr (w1\<lparr>statusBar := ''Invalid grid size! Only NxN grids supported.''\<rparr>))
      else Inr (w\<lparr>statusBar := ''Failed to import! Wrong data.''\<rparr>))"

text \<open>
  \<open>MainWindow::solveGrid\<close>. Class \<open>DLX\<close> is not part of this source file. The parameter
  \<open>dlx\<close> stands for it: \<open>dlx sudoku\<close> is \<open>Some s\<close> when \<open>solve()\<close> on the solver built from
  \<open>sudoku\<close> returns true and \<open>solution()\<close> is \<open>s\<close>, and \<open>None\<close> when \<open>solve()\<close> returns
  false. The solver receives a copy of the primitive grid and has no access to the
  window. \<open>elapsed\<close> is the measured duration \<open>benchEnd - benchStart\<close> in milliseconds and
  \<open>bench\<close> the caller's variable before the call; the result holds the returned flag,
  the caller's variable after the call and the window's grid.
\<close>

definition solveGrid ::
  "(Grid \<Rightarrow> Grid option) \<Rightarrow> real \<Rightarrow> real \<Rightarrow> UIGrid \<Rightarrow> error + (bool \<times> real \<times> UIGrid)" where
  "solveGrid dlx elapsed bench g =
     (case dlx (UIGridToGrid g) of
        Some solution \<Rightarrow>
          (case gridToUIGrid solution g of
             Inl e \<Rightarrow> Inl e
           | Inr g' \<Rightarrow> Inr (True, elapsed, g'))
      | None \<Rightarrow> Inr (False, bench, g))"

text \<open>
  \<open>MainWindow::runTest\<close> on the test \<open>(title, input, expected)\<close>; the state is the
  window's grid, \<open>benchSum\<close> and \<open>allPassed\<close>. The verdict is the line the test prints:
  ``Passed'', ``Wrong'' or ``Failed''.
\<close>

datatype verdict = Passed | Wrong | Failed

definition runTest ::
  "(Grid \<Rightarrow> Grid option) \<Rightarrow> real \<Rightarrow> string \<times> string \<times> string \<Rightarrow> UIGrid \<times> real \<times> bool
     \<Rightarrow> error + (verdict \<times> UIGrid \<times> real \<times> bool)" where
  "runTest dlx elapsed test st =
     (case st of (g, benchSum, allPassed) \<Rightarrow>
      case test of (title, input, expected) \<Rightarrow>
      case stringGridToUIGrid input g of
        Inl e \<Rightarrow> Inl e
      | Inr g1 \<Rightarrow>
          (case solveGrid dlx elapsed 0 g1 of
             Inl e \<Rightarrow> Inl e
           | Inr (solved, bench, g2) \<Rightarrow>
               (let benchSum' = benchSum + bench;
                    noSolution = (expected = ''none'')
                in if (solved \<and> \<not> noSolution) \<or> (\<not> solved \<and> noSolution) then
                     (let result = UIGridToStringGrid g2
                      in if result = expected \<or> expected = ''any'' \<or> noSolution
                         then Inr (Passed, g2, benchSum', allPassed)
                         else Inr (Wrong, g2, benchSum', False))
                   else Inr (Failed, g2, benchSum', False))))"

section \<open>The solver\<close>

text \<open>
  Modelled from the spec: class \<open>DLX\<close> (the reduction to exact cover, the Dancing Links
  matrix and its search) is not part of the source file; this section follows sections 3
  and 4.2 to 4.3 of the specification. A candidate \<open>(r, c, d)\<close> has the id
  \<open>(r * N + c) * N + (d - 1)\<close>.
\<close>

definition candidateId :: "nat \<Rightarrow> nat \<Rightarrow> nat \<Rightarrow> nat \<Rightarrow> nat" where
  "candidateId N r c d = (r * N + c) * N + (d - 1)"

text \<open>Modelled from the spec: decoding an id back to row, column and digit.\<close>

definition candidateRow :: "nat \<Rightarrow> nat \<Rightarrow> nat" where
  "candidateRow N cid = cid div (N * N)"

definition candidateCol :: "nat \<Rightarrow> nat \<Rightarrow> nat" where
  "candidateCol N cid = (cid div N) mod N"

definition candidateDigit :: "nat \<Rightarrow> nat \<Rightarrow> nat" where
  "candidateDigit N cid = cid mod N + 1"

text \<open>Modelled from the spec: the region side \<open>R\<close> with \<open>N = R * R\<close>, and the box of a cell.\<close>

definition regionSide :: "nat \<Rightarrow> nat" where
  "regionSide N = (case wholeSqrt N of Some R \<Rightarrow> R | None \<Rightarrow> 0)"

definition box :: "nat \<Rightarrow> nat \<Rightarrow> nat \<Rightarrow> nat" where
  "box N r c = (r div regionSide N) * regionSide N + c div regionSide N"

text \<open>
  Modelled from the spec: the four constraint columns a candidate touches, in the order
  cell, row-digit, column-digit, box-digit, with the offsets \<open>0\<close>, \<open>N * N\<close>,
  \<open>2 * N * N\<close> and \<open>3 * N * N\<close>. This is also the order of the candidate's horizontal
  ring.
\<close>

definition touched :: "nat \<Rightarrow> nat \<Rightarrow> nat list" where
  "touched N cid =
     (let r = candidateRow N cid; c = candidateCol N cid; d = candidateDigit N cid
      in [r * N + c,
          N * N + r * N + (d - 1),
          2 * (N * N) + c * N + (d - 1),
          3 * (N * N) + box N r c * N + (d - 1)])"

text \<open>
  Modelled from the spec: the builder of section 4.2. Rows outermost, then columns, then
  digits; an empty cell gives \<open>N\<close> candidates, a given gives one. The spec writes the empty
  cell as \<open>0\<close>. The window hands the solver \<open>-1\<close> for an empty cell (\<open>cellValue\<close>), and
  the program's own test for an empty value is \<open>value < 1\<close> (\<open>setCellValue\<close>,
  \<open>UIGridToStringGrid\<close>). The builder uses that test, so that it reads the grids the
  program passes; on a grid with values from \<open>0\<close> to \<open>N\<close> it is the spec's test
  \<open>cells[r][c] = 0\<close>.
\<close>

definition candidates :: "nat \<Rightarrow> Grid \<Rightarrow> nat list" where
  "candidates N cells =
     concat (map (\<lambda>r. concat (map (\<lambda>c.
       if cells ! r ! c < 1 then map (candidateId N r c) [1..<Suc N]
       else [candidateId N r c (nat (cells ! r ! c))]) [0..<N])) [0..<N])"

text \<open>
  Modelled from the spec: the matrix of section 3, by the content of its rings. \<open>active\<close>
  is the horizontal ring of the uncovered column headers, read from the root to the right;
  \<open>column m ! h\<close> is the vertical ring of column \<open>h\<close>, read from its header downwards, each
  node named by the id of its candidate. A header's \<open>size\<close> is the length of its ring.
  Unlinking a node is its removal from the list that holds it.
\<close>

record matrix =
  active :: "nat list"
  column :: "nat list list"

text \<open>
  Modelled from the spec: the build of section 4.3.1. Every column starts uncovered and
  empty; each candidate, in insertion order, gets a node at the bottom of each column it
  touches.
\<close>

definition appendNode :: "nat \<Rightarrow> nat \<Rightarrow> matrix \<Rightarrow> matrix" where
  "appendNode cid h m = m\<lparr>column := (column m)[h := column m ! h @ [cid]]\<rparr>"

definition build :: "nat \<Rightarrow> nat list \<Rightarrow> matrix" where
  "build N cands =
     fold (\<lambda>cid. fold (appendNode cid) (touched N cid)) cands
       \<lparr>active = [0..<4 * (N * N)], column = replicate (4 * (N * N)) []\<rparr>"

text \<open>
  Modelled from the spec: the columns of the nodes met by walking \<open>R\<close> from a candidate's
  node in column \<open>h\<close>, that node left out.
\<close>

definition rightOf :: "nat \<Rightarrow> nat \<Rightarrow> nat \<Rightarrow> nat list" where
  "rightOf N h cid =
     (let t = touched N cid in tl (dropWhile (\<lambda>j. j \<noteq> h) t) @ takeWhile (\<lambda>j. j \<noteq> h) t)"

text \<open>
  Modelled from the spec: \<open>cover(h)\<close> of section 4.3.2. The header is unlinked from the
  horizontal ring; then for each node \<open>i\<close> below \<open>h\<close> and each node \<open>j\<close> to the right of
  \<open>i\<close>, \<open>j\<close> is unlinked from its column.
\<close>

definition unlinkNode :: "nat \<Rightarrow> nat \<Rightarrow> matrix \<Rightarrow> matrix" where
  "unlinkNode cid j m = m\<lparr>column := (column m)[j := remove1 cid (column m ! j)]\<rparr>"

definition cover :: "nat \<Rightarrow> nat \<Rightarrow> matrix \<Rightarrow> matrix" where
  "cover N h m =
     fold (\<lambda>i. fold (unlinkNode i) (rightOf N h i)) (column m ! h)
       (m\<lparr>active := remove1 h (active m)\<rparr>)"

text \<open>
  Modelled from the spec: the column with the least size, the first such one met walking
  right from the root.
\<close>

definition columnSize :: "matrix \<Rightarrow> nat \<Rightarrow> nat" where
  "columnSize m h = length (column m ! h)"

definition chooseColumn :: "matrix \<Rightarrow> nat" where
  "chooseColumn m =
     fold (\<lambda>h best. if columnSize m h < columnSize m best then h else best)
       (tl (active m)) (hd (active m))"

lemma chooseColumn_active: "active m \<noteq> [] \<Longrightarrow> chooseColumn m \<in> set (active m)"
proof -
  have "fold (\<lambda>h best. if columnSize m h < columnSize m best then h else best) hs b \<in> insert b (set hs)"
    for hs b
    by (induction hs arbitrary: b) (auto split: if_splits)
  from this [of "tl (active m)" "hd (active m)"]
  show "active m \<noteq> [] \<Longrightarrow> chooseColumn m \<in> set (active m)"
    by (cases "active m") (auto simp: chooseColumn_def)
qed

lemma active_unlinkNode: "active (fold (unlinkNode i) js m) = active m"
  by (induction js arbitrary: m) (simp_all add: unlinkNode_def)

lemma active_cover: "active (cover N h m) = remove1 h (active m)"
proof -
  have "active (fold (\<lambda>i. fold (unlinkNode i) (f i)) rows m') = active m'" for rows f m'
    by (induction rows arbitrary: m') (simp_all add: active_unlinkNode)
  then show ?thesis by (simp add: cover_def)
qed

lemma active_covers: "length (active (fold (cover N) hs m)) \<le> length (active m)"
proof (induction hs arbitrary: m)
  case Nil
  then show ?case by simp
next
  case (Cons h hs)
  have "length (active (fold (cover N) hs (cover N h m))) \<le> length (active (cover N h m))"
    by (rule Cons.IH)
  also have "\<dots> \<le> length (active m)"
    by (simp add: active_cover length_remove1)
  finally show ?case by simp
qed

text \<open>
  Modelled from the spec: \<open>search\<close> of section 4.3.3. \<open>tryRows\<close> is its loop over the
  rows of the chosen column \<open>h\<close>, already covered in \<open>m\<close>. A row is pushed, the columns of
  its other nodes are covered and the search recurs; on failure the row is popped. The
  spec's \<open>uncover\<close> calls undo the covers exactly, so the loop goes on from the matrix it
  had before them. The result is the stack of chosen ids, or \<open>None\<close> for NOT_FOUND.
\<close>

function search :: "nat \<Rightarrow> matrix \<Rightarrow> nat list option"
  and tryRows :: "nat \<Rightarrow> nat \<Rightarrow> matrix \<Rightarrow> nat list \<Rightarrow> nat list option" where
  "search N m =
     (if active m = [] then Some []
      else if columnSize m (chooseColumn m) = 0 then None
      else tryRows N (chooseColumn m) (cover N (chooseColumn m) m) (column m ! chooseColumn m))"
| "tryRows N h m [] = None"
| "tryRows N h m (r # rs) =
     (case search N (fold (cover N) (rightOf N h r) m) of
        Some sol \<Rightarrow> Some (r # sol)
      | None \<Rightarrow> tryRows N h m rs)"
  by pat_completeness auto
termination
proof (relation "inv_image (less_than <*lex*> less_than)
    (\<lambda>x. case x of Inl (N, m) \<Rightarrow> (length (active m), 0)
                 | Inr (N, h, m, rs) \<Rightarrow> (length (active m), Suc (length rs)))", goal_cases)
  case 1
  then show ?case by (intro wf_inv_image wf_lex_prod wf_less_than)
next
  case (2 N m)
  then have "chooseColumn m \<in> set (active m)" by (simp add: chooseColumn_active)
  then show ?case by (simp add: active_cover length_remove1) (cases "active m", auto)
next
  case (3 N h m r rs)
  have "length (active (fold (cover N) (rightOf N h r) m)) \<le> length (active m)"
    by (rule active_covers)
  then show ?case by auto
next
  case (4 N h m r rs)
  then show ?case by simp
qed

declare search.simps [simp del]

text \<open>
  Modelled from the spec: \<open>solve\<close> of section 4.3.4. Every chosen id is decoded and
  written into a fresh grid.
\<close>

definition writeCandidate :: "nat \<Rightarrow> nat \<Rightarrow> Grid \<Rightarrow> Grid" where
  "writeCandidate N cid g =
     g[candidateRow N cid := (g ! candidateRow N cid)[candidateCol N cid := int (candidateDigit N cid)]]"

definition solve :: "Grid \<Rightarrow> Grid option" where
  "solve cells =
     (let N = length cells
      in case search N (build N (candidates N cells)) of
           Some chosen \<Rightarrow> Some (fold (writeCandidate N) chosen (replicate N (replicate N 0)))
         | None \<Rightarrow> None)"

section \<open>Well-formed grids\<close>

text \<open>
  A grid of side \<open>N\<close> has \<open>N\<close> rows of \<open>N\<close> cells. A cell of the window is valid when it
  is empty or shows the decimal numeral of a value from \<open>1\<close> to \<open>N\<close>; the side is an
  \<open>int\<close> of the program. A primitive grid in the sense of the specification holds values
  from \<open>0\<close> to \<open>N\<close>, with \<open>0\<close> for an empty cell.
\<close>

definition squareGrid :: "nat \<Rightarrow> 'a list list \<Rightarrow> bool" where
  "squareGrid N g = (length g = N \<and> list_all (\<lambda>row. length row = N) g)"

definition validCell :: "nat \<Rightarrow> string \<Rightarrow> bool" where
  "validCell N cell = (cell = [] \<or> cell \<in> set (map (\<lambda>v. number (int v)) [1..<Suc N]))"

definition validUIGrid :: "nat \<Rightarrow> UIGrid \<Rightarrow> bool" where
  "validUIGrid N g = (int N < 2 ^ 31 \<and> squareGrid N g \<and> list_all (list_all (validCell N)) g)"

definition validGrid :: "nat \<Rightarrow> Grid \<Rightarrow> bool" where
  "validGrid N cells =
     (squareGrid N cells \<and> list_all (list_all (\<lambda>v. 0 \<le> v \<and> v \<le> int N)) cells)"

section \<open>Grids the window reaches\<close>

text \<open>
  The window grids of side \<open>N\<close> that the program's own operations produce: the grid that
  a successful \<open>generateGrid\<close> creates, and from any such grid the grids left by
  \<open>resetGrid\<close>, by \<open>stringGridToUIGrid\<close> when it ends without a failed access, and by
  \<open>solveGrid\<close> with the solver of the section above. Cells typed by the user pass Qt's
  validator, which is not part of this source file, and are not covered.
\<close>

inductive reachable :: "nat \<Rightarrow> UIGrid \<Rightarrow> bool" for N :: nat where
  generated:
    "grid w \<noteq> [] \<longrightarrow> sudokuGridWidgets w \<noteq> 0 \<Longrightarrow> fst (generateGrid (int N) w) \<Longrightarrow>
     reachable N (grid (snd (generateGrid (int N) w)))"
| reset: "reachable N g \<Longrightarrow> reachable N (resetGrid g)"
| loaded: "reachable N g \<Longrightarrow> stringGridToUIGrid gridStr g = Inr g' \<Longrightarrow> reachable N g'"
| solved:
    "reachable N g \<Longrightarrow> solveGrid solve elapsed bench g = Inr (found, bench', g') \<Longrightarrow>
     reachable N g'"

section \<open>Sample grids\<close>

definition emptyUIGrid :: "nat \<Rightarrow> UIGrid" where
  "emptyUIGrid N = replicate N (replicate N [])"

definition sample4 :: UIGrid where
  "sample4 = [[''1'', [], ''3'', []], [[], ''4'', [], ''2''], [''2'', [], [], []], [[], [], ''1'', ''4'']]"

definition sample16 :: UIGrid where
  "sample16 = (emptyUIGrid 16)[0 := (replicate 16 [])[0 := ''10'']]"

definition sample16b :: UIGrid where
  "sample16b = (emptyUIGrid 16)[15 := (replicate 16 [])[15 := ''16'']]"

definition sample16c :: UIGrid where
  "sample16c = (emptyUIGrid 16)[3 := (replicate 16 [])[7 := ''9'']]"

definition full4 :: UIGrid where
  "full4 = [[''1'', ''2'', ''3'', ''4''], [''3'', ''4'', ''1'', ''2''],
            [''2'', ''1'', ''4'', ''3''], [''4'', ''3'', ''2'', ''1'']]"

definition clash4 :: UIGrid where
  "clash4 = [[''1'', ''1'', ''3'', ''4''], [''3'', ''4'', ''1'', ''2''],
             [''2'', ''1'', ''4'', ''3''], [''4'', ''3'', ''2'', ''1'']]"

definition puzzle4 :: Grid where
  "puzzle4 = [[1, 0, 0, 0], [0, 0, 3, 0], [0, 4, 0, 0], [0, 0, 0, 2]]"

definition solved4 :: Grid where
  "solved4 = [[1, 3, 2, 4], [4, 2, 3, 1], [2, 4, 1, 3], [3, 1, 4, 2]]"

definition puzzleUI4 :: UIGrid where
  "puzzleUI4 = [[''1'', [], [], []], [[], [], ''3'', []], [[], ''4'', [], []], [[], [], [], ''2'']]"

definition solvedUI4 :: UIGrid where
  "solvedUI4 = [[''1'', ''3'', ''2'', ''4''], [''4'', ''2'', ''3'', ''1''],
                [''2'', ''4'', ''1'', ''3''], [''3'', ''1'', ''4'', ''2'']]"

definition loaded19 :: UIGrid where
  "loaded19 = [[''1'', ''9'', [], []], [[], [], [], []], [[], [], [], []], [[], [], [], []]]"

definition window4 :: MainWindow where
  "window4 = snd (generateGrid 4 newWindow)"

text \<open>A solver that answers every grid with the grid of ones.\<close>

definition onesSolver :: "Grid \<Rightarrow> Grid option" where
  "onesSolver sudoku = Some (replicate 4 (replicate 4 1))"

section \<open>Notions used in the proofs\<close>

text \<open>
  A matrix is sound for a list of candidates when every uncovered column exists and every
  node in a column belongs to one of the candidates and to a candidate that touches that
  column.
\<close>

definition sound :: "nat \<Rightarrow> nat list \<Rightarrow> matrix \<Rightarrow> bool" where
  "sound N cands m =
     ((\<forall>h \<in> set (active m). h < length (column m)) \<and>
      (\<forall>h < length (column m). \<forall>x \<in> set (column m ! h). x \<in> set cands \<and> h \<in> set (touched N x)))"

text \<open>
  A window grid of side \<open>N\<close> each of whose cells is empty or shows a value from \<open>1\<close> to the
  larger of \<open>N\<close> and \<open>9\<close>.
\<close>

definition writtenGrid :: "nat \<Rightarrow> UIGrid \<Rightarrow> bool" where
  "writtenGrid N g = (squareGrid N g \<and> list_all (list_all (validCell (max N 9))) g)"

text \<open>A primitive grid of side \<open>N\<close> none of whose values exceeds \<open>N\<close>.\<close>

definition gridUpTo :: "nat \<Rightarrow> Grid \<Rightarrow> bool" where
  "gridUpTo N cells = (squareGrid N cells \<and> list_all (list_all (\<lambda>v. v \<le> int N)) cells)"

text \<open>
  The effect of \<open>addCell\<close> on the grid alone, and the row indices at which
  \<open>generateGrid\<close> appends cells, in the order of its loops.
\<close>

definition appendCell :: "nat \<Rightarrow> UIGrid \<Rightarrow> UIGrid" where
  "appendCell r g = g[r := g ! r @ [[]]]"

definition regionRows :: "nat \<Rightarrow> nat \<Rightarrow> nat list" where
  "regionRows R si = concat (map (\<lambda>i. map (\<lambda>j. i + si * R) [0..<R]) [0..<R])"

definition cellRows :: "nat \<Rightarrow> nat list" where
  "cellRows R = concat (map (\<lambda>si. concat (map (\<lambda>sj. regionRows R si) [0..<R])) [0..<R])"

section \<open>Facts about numerals\<close>

lemma isDigit_digitChar: "d < 10 \<Longrightarrow> isDigit (digitChar d)"
  by (simp add: isDigit_def digitChar_def)

lemma digitValue_digitChar: "d < 10 \<Longrightarrow> digitValue (digitChar d) = int d"
  by (simp add: digitValue_def isDigit_def digitChar_def)

lemma decimal_digits: "list_all isDigit (decimal n)"
proof (induction n rule: decimal.induct)
  case (1 n)
  show ?case
  proof (cases "n < 10")
    case True
    then show ?thesis by (subst decimal.simps) (simp add: isDigit_digitChar)
  next
    case False
    with 1 show ?thesis by (subst decimal.simps) (simp add: isDigit_digitChar)
  qed
qed

lemma decimal_nonempty: "decimal n \<noteq> []"
  by (subst decimal.simps) simp

lemma digitsValue_snoc: "digitsValue (ds @ [c]) = 10 * digitsValue ds + nat (digitValue c)"
  by (simp add: digitsValue_def)

lemma digitsValue_decimal: "digitsValue (decimal n) = n"
proof (induction n rule: decimal.induct)
  case (1 n)
  show ?case
  proof (cases "n < 10")
    case True
    then show ?thesis
      by (subst decimal.simps) (simp add: digitsValue_def digitValue_digitChar)
  next
    case False
    with 1 have "digitsValue (decimal (n div 10)) = n div 10" by simp
    with False show ?thesis
      by (subst decimal.simps) (simp add: digitsValue_snoc digitValue_digitChar)
  qed
qed

lemma isDigit_not_space: "isDigit c \<Longrightarrow> \<not> isSpace c"
  by (auto simp: isDigit_def isSpace_def)

lemma isDigit_not_sign: "isDigit c \<Longrightarrow> c \<noteq> CHR ''-'' \<and> c \<noteq> CHR ''+''"
  by (auto simp: isDigit_def)

lemma dropWhile_none: "\<forall>c \<in> set xs. \<not> P c \<Longrightarrow> dropWhile P xs = xs"
  by (cases xs) auto

lemma trimmed_digits: "list_all isDigit ds \<Longrightarrow> trimmed ds = ds"
proof -
  assume a: "list_all isDigit ds"
  then have n: "\<forall>c \<in> set ds. \<not> isSpace c"
    by (simp add: list_all_iff isDigit_not_space)
  then have "dropWhile isSpace ds = ds"
    by (rule dropWhile_none)
  moreover from n have "dropWhile isSpace (rev ds) = rev ds"
    by (intro dropWhile_none) simp
  ultimately show ?thesis by (simp add: trimmed_def)
qed

lemma toInt_decimal: "int n < 2 ^ 31 \<Longrightarrow> toInt (decimal n) = int n"
proof -
  assume b: "int n < 2 ^ 31"
  let ?ds = "decimal n"
  have d: "list_all isDigit ?ds" by (rule decimal_digits)
  have ne: "?ds \<noteq> []" by (rule decimal_nonempty)
  from d ne have "isDigit (hd ?ds)" by (cases ?ds) auto
  then have s: "hd ?ds \<noteq> CHR ''-''" "hd ?ds \<noteq> CHR ''+''"
    using isDigit_not_sign by blast+
  from b have b': "int n < 2147483648" by simp
  show ?thesis
    using d ne s b' by (simp add: toInt_def trimmed_digits digitsValue_decimal Let_def)
qed

lemma toInt_number: "0 \<le> v \<Longrightarrow> v < 2 ^ 31 \<Longrightarrow> toInt (number v) = v"
  using toInt_decimal [of "nat v"] by (simp add: number_def)

lemma number_nonempty: "number v \<noteq> []"
  by (simp add: number_def decimal_nonempty)

lemma cellValue_setCellValue:
  "1 \<le> v \<Longrightarrow> v < 2 ^ 31 \<Longrightarrow> cellValue (setCellValue c v) = v"
  by (simp add: cellValue_def setCellValue_def number_nonempty toInt_number)

lemma number_digit: "0 \<le> v \<Longrightarrow> v \<le> 9 \<Longrightarrow> number v = [digitChar (nat v)]"
  by (simp add: number_def decimal.simps)

lemma number_two: "10 \<le> v \<Longrightarrow> v \<le> 99 \<Longrightarrow> length (number v) = 2"
proof -
  assume a: "10 \<le> v" "v \<le> 99"
  then have "\<not> nat v < 10" "nat v div 10 < 10" by arith+
  then show ?thesis
    using a by (simp add: number_def decimal.simps [of "nat v"] decimal.simps [of "nat v div 10"])
qed

section \<open>Facts about the string loader\<close>

lemma squareGrid_row: "squareGrid N g \<Longrightarrow> a < N \<Longrightarrow> length (g ! a) = N"
  by (simp add: squareGrid_def list_all_length)

lemma squareGrid_update:
  assumes "squareGrid N g"
  shows "squareGrid N (g[i := (g ! i)[j := v]])"
proof (cases "i < length g")
  case True
  with assms show ?thesis
    by (auto simp: squareGrid_def list_all_length nth_list_update)
next
  case False
  then have "g[i := (g ! i)[j := v]] = g" by (simp add: list_update_beyond)
  with assms show ?thesis by simp
qed

lemma cursor_step:
  "0 < N \<Longrightarrow> (if N \<le> Suc (p mod N) then (Suc (p div N), 0) else (p div N, Suc (p mod N)))
     = (Suc p div N, Suc p mod N)"
proof -
  assume N: "0 < N"
  then have "p mod N < N" by simp
  then show ?thesis by (auto simp: mod_Suc div_Suc)
qed

lemma cell_position:
  "b < N \<Longrightarrow> (a * N + b = p) = (a = p div N \<and> b = p mod (N::nat))"
proof -
  assume b: "b < N"
  then have "N \<noteq> 0" by simp
  with b have "(a * N + b) div N = a" "(a * N + b) mod N = b"
    by simp_all
  then show ?thesis by auto
qed

lemma load_step:
  assumes sq: "squareGrid N g" and p: "p < N * N"
  shows "stringGridToUIGrid_from (p div N) (p mod N) (c # rest) g =
     stringGridToUIGrid_from (Suc p div N) (Suc p mod N) rest
       (g[p div N := (g ! (p div N))[p mod N := setCellValue (g ! (p div N) ! (p mod N)) (digitValue c)]])"
proof -
  from p have N: "0 < N" by (cases N) auto
  from p N have i: "p div N < N" by (simp add: less_mult_imp_div_less)
  from N have j: "p mod N < N" by simp
  from sq have len: "length g = N" by (simp add: squareGrid_def)
  from sq i have row: "length (g ! (p div N)) = N" by (rule squareGrid_row)
  from cursor_step [OF N, of p] show ?thesis
    using i j len row by (auto simp: Let_def split: if_splits)
qed

lemma load_within:
  "squareGrid N g \<Longrightarrow> p + length s \<le> N * N \<Longrightarrow>
   \<exists>g'. stringGridToUIGrid_from (p div N) (p mod N) s g = Inr g' \<and> squareGrid N g' \<and>
     (\<forall>a<N. \<forall>b<N. g' ! a ! b =
        (if p \<le> a * N + b \<and> a * N + b < p + length s
         then setCellValue (g ! a ! b) (digitValue (s ! (a * N + b - p)))
         else g ! a ! b))"
proof (induction s arbitrary: p g)
  case Nil
  then show ?case by auto
next
  case (Cons c rest)
  let ?i = "p div N" and ?j = "p mod N"
  let ?g1 = "g[?i := (g ! ?i)[?j := setCellValue (g ! ?i ! ?j) (digitValue c)]]"
  from Cons.prems have p: "p < N * N" by simp
  then have N: "0 < N" by (cases N) auto
  from p N have i: "?i < N" by (simp add: less_mult_imp_div_less)
  from N have j: "?j < N" by simp
  from Cons.prems have len: "length g = N" by (simp add: squareGrid_def)
  from Cons.prems i have row: "length (g ! ?i) = N" by (simp add: squareGrid_row)
  have sq1: "squareGrid N ?g1" using Cons.prems(1) by (rule squareGrid_update)
  from Cons.prems have "Suc p + length rest \<le> N * N" by simp
  from Cons.IH [OF sq1 this] obtain g' where
    run: "stringGridToUIGrid_from (Suc p div N) (Suc p mod N) rest ?g1 = Inr g'" and
    sq': "squareGrid N g'" and
    cells: "\<forall>a<N. \<forall>b<N. g' ! a ! b =
        (if Suc p \<le> a * N + b \<and> a * N + b < Suc p + length rest
         then setCellValue (?g1 ! a ! b) (digitValue (rest ! (a * N + b - Suc p)))
         else ?g1 ! a ! b)" by blast
  have "stringGridToUIGrid_from ?i ?j (c # rest) g = Inr g'"
    using load_step [OF Cons.prems(1) p] run by simp
  moreover have "g' ! a ! b =
        (if p \<le> a * N + b \<and> a * N + b < p + length (c # rest)
         then setCellValue (g ! a ! b) (digitValue ((c # rest) ! (a * N + b - p)))
         else g ! a ! b)" if a: "a < N" and b: "b < N" for a b
  proof (cases "a * N + b = p")
    case True
    with b have ab: "a = ?i" "b = ?j" by (simp_all add: cell_position)
    from True have "\<not> (Suc p \<le> a * N + b \<and> a * N + b < Suc p + length rest)" by simp
    with cells [rule_format, OF a b] have "g' ! a ! b = ?g1 ! a ! b"
      by (simp only: if_False)
    also have "\<dots> = setCellValue (g ! a ! b) (digitValue c)"
      using ab i j len row by simp
    finally show ?thesis using True by simp
  next
    case neq: False
    with b have ne: "\<not> (a = ?i \<and> b = ?j)" by (simp add: cell_position)
    have same: "?g1 ! a ! b = g ! a ! b"
      using ne a len by (cases "a = ?i") (auto simp: nth_list_update)
    show ?thesis
    proof (cases "p \<le> a * N + b \<and> a * N + b < p + length (c # rest)")
      case True
      with neq have in': "Suc p \<le> a * N + b \<and> a * N + b < Suc p + length rest" by simp
      then obtain k where k: "a * N + b - p = Suc k" "a * N + b - Suc p = k"
        by (metis Suc_diff_Suc Suc_le_lessD diff_Suc_1)
      from cells [rule_format, OF a b] in'
      have "g' ! a ! b = setCellValue (?g1 ! a ! b) (digitValue (rest ! (a * N + b - Suc p)))"
        by (simp only: if_True simp_thms)
      with k True show ?thesis
        by (simp add: setCellValue_def)
    next
      case False
      then have "\<not> (Suc p \<le> a * N + b \<and> a * N + b < Suc p + length rest)" by auto
      with cells [rule_format, OF a b] have "g' ! a ! b = ?g1 ! a ! b"
        by (simp only: if_False)
      with same False show ?thesis by (simp only: if_False)
    qed
  qed
  ultimately show ?case using sq' by blast
qed

lemma load_beyond:
  "squareGrid N g \<Longrightarrow> p \<le> N * N \<Longrightarrow> N * N < p + length s \<Longrightarrow>
   stringGridToUIGrid_from (p div N) (p mod N) s g = Inl (RowOutOfRange N)"
proof (induction s arbitrary: p g)
  case Nil
  then show ?case by simp
next
  case (Cons c rest)
  show ?case
  proof (cases "p = N * N")
    case True
    then have "p div N = N" by (cases "N = 0") auto
    moreover from Cons.prems have "length g = N" by (simp add: squareGrid_def)
    ultimately show ?thesis by simp
  next
    case False
    with Cons.prems have p: "p < N * N" by simp
    have "squareGrid N (g[p div N := (g ! (p div N))[p mod N := setCellValue (g ! (p div N) ! (p mod N)) (digitValue c)]])"
      using Cons.prems(1) by (rule squareGrid_update)
    moreover from p have "Suc p \<le> N * N" by simp
    moreover from Cons.prems have "N * N < Suc p + length rest" by simp
    ultimately show ?thesis
      using Cons.IH load_step [OF Cons.prems(1) p] by simp
  qed
qed

section \<open>Facts about serialization\<close>

lemma validCell_iff:
  "validCell N cell = (cell = [] \<or> (\<exists>v. 1 \<le> v \<and> v \<le> N \<and> cell = number (int v)))"
  by (auto simp: validCell_def)

lemma validUIGrid_cell:
  "validUIGrid N g \<Longrightarrow> cell \<in> set (concat g) \<Longrightarrow> validCell N cell"
  by (auto simp: validUIGrid_def list_all_iff)

lemma fold_append_concat:
  "fold (\<lambda>x s. s @ f x) xs s = s @ concat (map f xs)"
  by (induction xs arbitrary: s) auto

lemma UIGridToStringGrid_concat:
  "UIGridToStringGrid g = concat (map cellString (concat g))"
proof -
  have "fold (\<lambda>row s. fold (\<lambda>cell s. s @ cellString cell) row s) g s
      = s @ concat (map cellString (concat g))" for s
    by (induction g arbitrary: s) (auto simp: fold_append_concat)
  then show ?thesis by (simp add: UIGridToStringGrid_def)
qed

lemma fold_snoc_map: "fold (\<lambda>x ys. ys @ [f x]) xs ys = ys @ map f xs"
  by (induction xs arbitrary: ys) auto

lemma UIGridToGrid_map: "UIGridToGrid g = map (map cellValue) g"
  by (simp add: UIGridToGrid_def fold_snoc_map)

lemma cellValue_valid:
  assumes "N < 2 ^ 31" "1 \<le> v" "v \<le> N"
  shows "cellValue (number (int v)) = int v"
proof -
  from assms have "v < 2 ^ 31" by simp
  then have "int v < int (2 ^ 31)" by (simp only: of_nat_less_iff)
  then have "int v < 2 ^ 31" by simp
  then show ?thesis by (simp add: cellValue_def number_nonempty toInt_number)
qed

lemma cellString_empty: "cellString [] = ''.''"
  by (simp add: cellString_def cellValue_def)

lemma cellString_valid:
  assumes "N < 2 ^ 31" "1 \<le> v" "v \<le> N"
  shows "cellString (number (int v)) = number (int v)"
  using assms cellValue_valid [OF assms] by (simp add: cellString_def)

lemma decimal_length: "length (decimal n) = Suc 0 \<longleftrightarrow> n \<le> 9"
proof (cases "n < 10")
  case True
  then show ?thesis by (simp add: decimal.simps)
next
  case False
  have "decimal (n div 10) \<noteq> []" by (rule decimal_nonempty)
  then have "0 < length (decimal (n div 10))" by simp
  with False show ?thesis by (subst decimal.simps) simp
qed

lemma cellString_length_pos:
  "validCell N cell \<Longrightarrow> N < 2 ^ 31 \<Longrightarrow> 0 < length (cellString cell)"
  by (auto simp: validCell_iff cellString_empty cellString_valid number_nonempty)

lemma cellString_length_one:
  assumes "validCell N cell" "N < 2 ^ 31"
  shows "(length (cellString cell) = 1) = (cellValue cell \<le> 9)"
proof (cases "cell = []")
  case True
  then show ?thesis by (simp add: cellString_empty cellValue_def)
next
  case False
  with assms obtain v where v: "1 \<le> v" "v \<le> N" "cell = number (int v)"
    by (auto simp: validCell_iff)
  with assms have "cellValue cell = int v" "cellString cell = decimal v"
    by (simp_all add: cellValue_valid cellString_valid) (simp add: number_def)
  then show ?thesis by (simp add: decimal_length)
qed

lemma setCellValue_cellString:
  assumes "validCell N cell" "N < 2 ^ 31" "cellValue cell \<le> 9"
  shows "cellString cell = [hd (cellString cell)]"
    and "setCellValue c (digitValue (hd (cellString cell))) = cell"
proof -
  show "cellString cell = [hd (cellString cell)]"
    using cellString_length_one [OF assms(1,2)] assms(3)
    by (cases "cellString cell") auto
  show "setCellValue c (digitValue (hd (cellString cell))) = cell"
  proof (cases "cell = []")
    case True
    then show ?thesis
      by (simp add: cellString_empty setCellValue_def digitValue_def isDigit_def)
  next
    case False
    with assms obtain v where v: "1 \<le> v" "v \<le> N" "cell = number (int v)"
      by (auto simp: validCell_iff)
    with assms have cv: "cellValue cell = int v" "cellString cell = number (int v)"
      by (simp_all add: cellValue_valid cellString_valid)
    with assms(3) have "v \<le> 9" by simp
    with v have "number (int v) = [digitChar v]"
      using number_digit [of "int v"] by simp
    with cv v \<open>v \<le> 9\<close> show ?thesis
      by (simp add: digitValue_digitChar setCellValue_def number_digit)
  qed
qed

lemma concat_nth_rows:
  "\<forall>row \<in> set g. length row = M \<Longrightarrow> a < length g \<Longrightarrow> b < M \<Longrightarrow>
   concat g ! (a * M + b) = g ! a ! b"
proof (induction g arbitrary: a)
  case Nil
  then show ?case by simp
next
  case (Cons r rs)
  show ?case
  proof (cases a)
    case 0
    with Cons.prems show ?thesis by (simp add: nth_append)
  next
    case (Suc a')
    with Cons.prems have "concat rs ! (a' * M + b) = rs ! a' ! b"
      by (intro Cons.IH) auto
    with Suc Cons.prems show ?thesis by (simp add: nth_append)
  qed
qed

lemma concat_length_rows:
  "\<forall>row \<in> set g. length row = M \<Longrightarrow> length (concat g) = length g * M"
  by (induction g) auto

lemma squareGrid_concat:
  assumes "squareGrid N g"
  shows "length (concat g) = N * N"
    and "a < N \<Longrightarrow> b < N \<Longrightarrow> concat g ! (a * N + b) = g ! a ! b"
    and "a < N \<Longrightarrow> b < N \<Longrightarrow> g ! a ! b \<in> set (concat g)"
proof -
  from assms have rows: "\<forall>row \<in> set g. length row = N" and len: "length g = N"
    by (simp_all add: squareGrid_def list_all_iff)
  from concat_length_rows [OF rows] len show "length (concat g) = N * N" by simp
  from concat_nth_rows [OF rows] len show "a < N \<Longrightarrow> b < N \<Longrightarrow> concat g ! (a * N + b) = g ! a ! b"
    by simp
  from rows len show "a < N \<Longrightarrow> b < N \<Longrightarrow> g ! a ! b \<in> set (concat g)"
    by (auto intro!: bexI [of _ "g ! a"])
qed

lemma squareGrid_eqI:
  assumes "squareGrid N g" "squareGrid N g'"
    and "\<And>a b. a < N \<Longrightarrow> b < N \<Longrightarrow> g ! a ! b = g' ! a ! b"
  shows "g = g'"
proof (rule nth_equalityI)
  from assms show "length g = length g'" by (simp add: squareGrid_def)
next
  fix a assume "a < length g"
  with assms have a: "a < N" by (simp add: squareGrid_def)
  show "g ! a = g' ! a"
  proof (rule nth_equalityI)
    from a assms show "length (g ! a) = length (g' ! a)" by (simp add: squareGrid_row)
  next
    fix b assume "b < length (g ! a)"
    with a assms have "b < N" by (simp add: squareGrid_row)
    with a assms show "g ! a ! b = g' ! a ! b" by simp
  qed
qed

lemma cell_index_bound: "a < N \<Longrightarrow> b < N \<Longrightarrow> a * N + b < N * (N::nat)"
proof -
  assume a: "a < N" and b: "b < N"
  then have "a * N + b < Suc a * N" by simp
  also from a have "\<dots> \<le> N * N" by (intro mult_le_mono) auto
  finally show ?thesis .
qed

lemma sum_list_lengths:
  "\<forall>x \<in> set xs. 0 < h x \<Longrightarrow> length xs \<le> sum_list (map h xs)"
  "\<forall>x \<in> set xs. 0 < h x \<Longrightarrow> \<exists>x \<in> set xs. h x \<noteq> Suc 0 \<Longrightarrow> length xs < sum_list (map h xs)"
proof -
  show le: "length xs \<le> sum_list (map h xs)" if "\<forall>x \<in> set xs. 0 < h x" for xs
    using that
  proof (induction xs)
    case Nil
    then show ?case by simp
  next
    case (Cons x xs)
    then have "0 < h x" "length xs \<le> sum_list (map h xs)" by simp_all
    then show ?case by simp
  qed
  show "\<forall>x \<in> set xs. 0 < h x \<Longrightarrow> \<exists>x \<in> set xs. h x \<noteq> Suc 0 \<Longrightarrow> length xs < sum_list (map h xs)"
  proof (induction xs)
    case Nil
    then show ?case by simp
  next
    case (Cons x xs)
    then have pos: "0 < h x" and rest: "\<forall>x \<in> set xs. 0 < h x" by simp_all
    show ?case
    proof (cases "h x = Suc 0")
      case True
      with Cons.prems have "\<exists>x \<in> set xs. h x \<noteq> Suc 0" by simp
      with Cons.IH rest have "length xs < sum_list (map h xs)" by blast
      with True show ?thesis by simp
    next
      case False
      with pos have "2 \<le> h x" by simp
      moreover from le [OF rest] have "length xs \<le> sum_list (map h xs)" .
      ultimately show ?thesis by simp
    qed
  qed
qed

lemma serialized_length:
  assumes "validUIGrid N g"
  shows "N * N \<le> length (UIGridToStringGrid g)"
    and "(length (UIGridToStringGrid g) = N * N) = (\<forall>cell \<in> set (concat g). cellValue cell \<le> 9)"
proof -
  from assms have N: "N < 2 ^ 31" and sq: "squareGrid N g" by (simp_all add: validUIGrid_def)
  let ?h = "\<lambda>cell. length (cellString cell)"
  have len: "length (UIGridToStringGrid g) = sum_list (map ?h (concat g))"
    by (simp add: UIGridToStringGrid_concat length_concat comp_def)
  have pos: "\<forall>cell \<in> set (concat g). 0 < ?h cell"
  proof
    fix cell assume "cell \<in> set (concat g)"
    with assms have "validCell N cell" by (rule validUIGrid_cell)
    then show "0 < ?h cell" using N by (rule cellString_length_pos)
  qed
  from sum_list_lengths(1) [of "concat g" ?h, OF pos] len squareGrid_concat(1) [OF sq]
  show "N * N \<le> length (UIGridToStringGrid g)" by simp
  show "(length (UIGridToStringGrid g) = N * N) = (\<forall>cell \<in> set (concat g). cellValue cell \<le> 9)"
  proof
    assume eq: "length (UIGridToStringGrid g) = N * N"
    show "\<forall>cell \<in> set (concat g). cellValue cell \<le> 9"
    proof (rule ccontr)
      assume "\<not> (\<forall>cell \<in> set (concat g). cellValue cell \<le> 9)"
      then obtain cell where c: "cell \<in> set (concat g)" "\<not> cellValue cell \<le> 9" by blast
      from assms c(1) have "validCell N cell" by (rule validUIGrid_cell)
      from cellString_length_one [OF this N] c(2) have "?h cell \<noteq> Suc 0" by simp
      with c have "\<exists>cell \<in> set (concat g). ?h cell \<noteq> Suc 0" by blast
      from sum_list_lengths(2) [of "concat g" ?h, OF pos this] len squareGrid_concat(1) [OF sq] eq
      show False by simp
    qed
  next
    assume small: "\<forall>cell \<in> set (concat g). cellValue cell \<le> 9"
    have "map ?h (concat g) = map (\<lambda>cell. Suc 0) (concat g)"
    proof (rule map_cong [OF refl])
      fix cell assume c: "cell \<in> set (concat g)"
      with assms have "validCell N cell" by (rule validUIGrid_cell)
      moreover from small c have "cellValue cell \<le> 9" by blast
      ultimately show "?h cell = Suc 0" using cellString_length_one [of N cell] N by simp
    qed
    then have "sum_list (map ?h (concat g)) = sum_list (map (\<lambda>cell. Suc 0) (concat g))"
      by (simp only:)
    also have "\<dots> = length (concat g)"
    proof -
      have "sum_list (map (\<lambda>cell. Suc 0) xs) = length xs" for xs :: "string list"
        by (induction xs) simp_all
      then show ?thesis .
    qed
    finally have "sum_list (map ?h (concat g)) = length (concat g)" .
    with len squareGrid_concat(1) [OF sq] show "length (UIGridToStringGrid g) = N * N" by simp
  qed
qed

lemma serialized_small:
  assumes "validUIGrid N g" and small: "\<forall>cell \<in> set (concat g). cellValue cell \<le> 9"
  shows "UIGridToStringGrid g = map (\<lambda>cell. hd (cellString cell)) (concat g)"
proof -
  from assms have N: "N < 2 ^ 31" by (simp add: validUIGrid_def)
  have "map cellString (concat g) = map (\<lambda>cell. [hd (cellString cell)]) (concat g)"
  proof (rule map_cong [OF refl])
    fix cell assume c: "cell \<in> set (concat g)"
    with assms(1) have v: "validCell N cell" by (rule validUIGrid_cell)
    from small c have "cellValue cell \<le> 9" by blast
    with v N show "cellString cell = [hd (cellString cell)]"
      by (rule setCellValue_cellString(1))
  qed
  moreover have "concat (map (\<lambda>x. [f x]) xs) = map f xs" for f :: "string \<Rightarrow> char" and xs
    by (induction xs) simp_all
  ultimately show ?thesis
    by (simp only: UIGridToStringGrid_concat)
qed

lemma load_square:
  assumes "squareGrid N g0" "length s \<le> N * N"
  shows "\<exists>g'. stringGridToUIGrid s g0 = Inr g' \<and> squareGrid N g' \<and>
     (\<forall>a<N. \<forall>b<N. g' ! a ! b =
        (if a * N + b < length s then setCellValue (g0 ! a ! b) (digitValue (s ! (a * N + b)))
         else g0 ! a ! b))"
  using load_within [of N g0 0 s] assms
  by (simp add: stringGridToUIGrid_def split del: if_split cong del: if_weak_cong)

lemma load_too_long:
  assumes "squareGrid N g0" "N * N < length s"
  shows "stringGridToUIGrid s g0 = Inl (RowOutOfRange N)"
  using load_beyond [of N g0 0 s] assms by (simp add: stringGridToUIGrid_def)

lemma roundtrip_small:
  assumes v: "validUIGrid N g" and sq0: "squareGrid N g0"
    and small: "\<forall>cell \<in> set (concat g). cellValue cell \<le> 9"
  shows "stringGridToUIGrid (UIGridToStringGrid g) g0 = Inr g"
proof -
  let ?s = "UIGridToStringGrid g"
  from v have N: "N < 2 ^ 31" and sq: "squareGrid N g" by (simp_all add: validUIGrid_def)
  have s: "?s = map (\<lambda>cell. hd (cellString cell)) (concat g)"
    using v small by (rule serialized_small)
  then have len: "length ?s = N * N" by (simp add: squareGrid_concat(1) [OF sq])
  from load_square [OF sq0, of ?s] len obtain g' where
    run: "stringGridToUIGrid ?s g0 = Inr g'" and sq': "squareGrid N g'" and
    cells: "\<forall>a<N. \<forall>b<N. g' ! a ! b =
        (if a * N + b < length ?s then setCellValue (g0 ! a ! b) (digitValue (?s ! (a * N + b)))
         else g0 ! a ! b)" by auto
  have "g' = g"
  proof (rule squareGrid_eqI [OF sq' sq])
    fix a b assume a: "a < N" and b: "b < N"
    then have k: "a * N + b < N * N" by (rule cell_index_bound)
    from a b have mem: "g ! a ! b \<in> set (concat g)" by (rule squareGrid_concat(3) [OF sq])
    with v have vc: "validCell N (g ! a ! b)" by (rule validUIGrid_cell)
    from small mem have sm: "cellValue (g ! a ! b) \<le> 9" by blast
    from k squareGrid_concat(1) [OF sq] have "?s ! (a * N + b) = hd (cellString (concat g ! (a * N + b)))"
      by (simp add: s)
    also from a b have "concat g ! (a * N + b) = g ! a ! b" by (rule squareGrid_concat(2) [OF sq])
    finally have ch: "?s ! (a * N + b) = hd (cellString (g ! a ! b))" .
    from cells a b k len have "g' ! a ! b = setCellValue (g0 ! a ! b) (digitValue (?s ! (a * N + b)))"
      by simp
    also have "\<dots> = g ! a ! b"
      unfolding ch using vc N sm by (rule setCellValue_cellString(2))
    finally show "g' ! a ! b = g ! a ! b" .
  qed
  with run show ?thesis by simp
qed

lemma roundtrip_large:
  assumes v: "validUIGrid N g" and sq0: "squareGrid N g0"
    and large: "\<not> (\<forall>cell \<in> set (concat g). cellValue cell \<le> 9)"
  shows "stringGridToUIGrid (UIGridToStringGrid g) g0 = Inl (RowOutOfRange N)"
proof -
  from serialized_length(2) [OF v] large have "length (UIGridToStringGrid g) \<noteq> N * N"
    by blast
  with serialized_length(1) [OF v] have "N * N < length (UIGridToStringGrid g)"
    by arith
  with sq0 show ?thesis by (rule load_too_long)
qed

lemma small_side:
  assumes v: "validUIGrid N g" and N: "N \<le> 9"
  shows "\<forall>cell \<in> set (concat g). cellValue cell \<le> 9"
proof
  fix cell assume "cell \<in> set (concat g)"
  with v have vc: "validCell N cell" by (rule validUIGrid_cell)
  from v have N31: "N < 2 ^ 31" by (simp add: validUIGrid_def)
  show "cellValue cell \<le> 9"
  proof (cases "cell = []")
    case True
    then show ?thesis by (simp add: cellValue_def)
  next
    case False
    with vc obtain x where x: "1 \<le> x" "x \<le> N" "cell = number (int x)"
      by (auto simp: validCell_iff)
    with N31 have "cellValue cell = int x" by (simp add: cellValue_valid)
    with x N show ?thesis by simp
  qed
qed

section \<open>Facts about the solver\<close>

lemma column_update_subset:
  assumes "set ys \<subseteq> set (cols ! j) \<union> extra"
  shows "set (cols[j := ys] ! h) \<subseteq> set (cols ! h) \<union> (if h = j then extra else {})"
proof (cases "h = j")
  case True
  show ?thesis
  proof (cases "j < length cols")
    case True
    with \<open>h = j\<close> assms show ?thesis by simp
  next
    case False
    then have "cols[j := ys] = cols" by (simp add: list_update_beyond)
    then show ?thesis by auto
  qed
next
  case False
  then show ?thesis by simp
qed

lemma sound_unlinkNode:
  assumes "sound N cands m"
  shows "sound N cands (unlinkNode i j m)"
proof -
  have "set (remove1 i (column m ! j)) \<subseteq> set (column m ! j) \<union> {}"
    using set_remove1_subset [of i "column m ! j"] by simp
  from column_update_subset [OF this]
  have "set ((column m)[j := remove1 i (column m ! j)] ! h) \<subseteq> set (column m ! h)" for h
    by (auto split: if_splits)
  with assms show ?thesis
    unfolding sound_def unlinkNode_def by (auto simp: subset_iff)
qed

lemma sound_unlinkNodes: "sound N cands m \<Longrightarrow> sound N cands (fold (unlinkNode i) js m)"
  by (induction js arbitrary: m) (simp_all add: sound_unlinkNode)

lemma sound_unlinkRows:
  "sound N cands m \<Longrightarrow> sound N cands (fold (\<lambda>i. fold (unlinkNode i) (f i)) rows m)"
  by (induction rows arbitrary: m) (simp_all add: sound_unlinkNodes)

lemma sound_cover: "sound N cands m \<Longrightarrow> sound N cands (cover N h m)"
proof -
  assume s: "sound N cands m"
  then have "sound N cands (m\<lparr>active := remove1 h (active m)\<rparr>)"
    by (auto simp: sound_def dest: notin_set_remove1)
  then show ?thesis unfolding cover_def by (rule sound_unlinkRows)
qed

lemma sound_covers: "sound N cands m \<Longrightarrow> sound N cands (fold (cover N) hs m)"
  by (induction hs arbitrary: m) (simp_all add: sound_cover)

lemma sound_appendNode:
  assumes "sound N cands m" "cid \<in> set cands" "h \<in> set (touched N cid)"
  shows "sound N cands (appendNode cid h m)"
proof -
  have "set (column m ! h @ [cid]) \<subseteq> set (column m ! h) \<union> {cid}" by simp
  from column_update_subset [OF this]
  have "set ((column m)[h := column m ! h @ [cid]] ! h')
      \<subseteq> set (column m ! h') \<union> (if h' = h then {cid} else {})" for h' .
  then have "x \<in> set (column m ! h') \<or> (h' = h \<and> x = cid)"
    if "x \<in> set ((column m)[h := column m ! h @ [cid]] ! h')" for x h'
    using that by (fastforce split: if_splits)
  with assms show ?thesis
    unfolding sound_def appendNode_def by fastforce
qed

lemma sound_appendNodes:
  "sound N cands m \<Longrightarrow> cid \<in> set cands \<Longrightarrow> set hs \<subseteq> set (touched N cid) \<Longrightarrow>
   sound N cands (fold (appendNode cid) hs m)"
  by (induction hs arbitrary: m) (simp_all add: sound_appendNode)

lemma sound_appendRows:
  "sound N cands m \<Longrightarrow> set cs \<subseteq> set cands \<Longrightarrow>
   sound N cands (fold (\<lambda>cid. fold (appendNode cid) (touched N cid)) cs m)"
  by (induction cs arbitrary: m) (simp_all add: sound_appendNodes)

lemma sound_build: "sound N cands (build N cands)"
proof -
  have "sound N cands \<lparr>active = [0..<4 * (N * N)], column = replicate (4 * (N * N)) []\<rparr>"
    by (simp add: sound_def)
  then show ?thesis unfolding build_def by (rule sound_appendRows) simp
qed

lemma active_appendNodes: "active (fold (appendNode cid) hs m) = active m"
  by (induction hs arbitrary: m) (simp_all add: appendNode_def)

lemma active_build: "active (build N cands) = [0..<4 * (N * N)]"
proof -
  have "active (fold (\<lambda>cid. fold (appendNode cid) (touched N cid)) cs m) = active m" for cs m
    by (induction cs arbitrary: m) (simp_all add: active_appendNodes)
  then show ?thesis by (simp add: build_def)
qed

lemma rightOf_touched: "set (rightOf N h r) \<subseteq> set (touched N r)"
proof
  fix x assume "x \<in> set (rightOf N h r)"
  then have "x \<in> set (tl (dropWhile (\<lambda>j. j \<noteq> h) (touched N r)))
      \<or> x \<in> set (takeWhile (\<lambda>j. j \<noteq> h) (touched N r))"
    by (simp add: rightOf_def Let_def)
  then show "x \<in> set (touched N r)"
    by (metis list.set_sel(2) set_dropWhileD set_takeWhileD tl_Nil)
qed

lemma active_covers_rest: "set (active m) \<subseteq> set (active (fold (cover N) hs m)) \<union> set hs"
proof (induction hs arbitrary: m)
  case Nil
  then show ?case by simp
next
  case (Cons h hs)
  have "set (active m) \<subseteq> set (remove1 h (active m)) \<union> {h}"
    using in_set_remove1 [of _ h "active m"] by fastforce
  also have "set (remove1 h (active m)) = set (active (cover N h m))"
    by (simp add: active_cover)
  also have "\<dots> \<subseteq> set (active (fold (cover N) hs (cover N h m))) \<union> set hs"
    by (rule Cons.IH)
  finally show ?case by auto
qed

lemma search_sound:
  "sound N cands m \<Longrightarrow> search N m = Some sol \<Longrightarrow>
     set sol \<subseteq> set cands \<and> (\<forall>h' \<in> set (active m). \<exists>x \<in> set sol. h' \<in> set (touched N x))"
  "sound N cands m' \<Longrightarrow> (\<forall>r \<in> set rs. r \<in> set cands \<and> h \<in> set (touched N r)) \<Longrightarrow>
   tryRows N h m' rs = Some sol' \<Longrightarrow>
     set sol' \<subseteq> set cands \<and> (\<exists>x \<in> set sol'. h \<in> set (touched N x)) \<and>
     (\<forall>h' \<in> set (active m'). \<exists>x \<in> set sol'. h' \<in> set (touched N x))"
proof (induction N m and N h m' rs arbitrary: sol and sol' rule: search_tryRows.induct)
  case (1 N m)
  show ?case
  proof (cases "active m = []")
    case True
    with "1.prems" show ?thesis by (simp add: search.simps [of N m])
  next
    case False
    let ?h = "chooseColumn m"
    from False have hin: "?h \<in> set (active m)" by (rule chooseColumn_active)
    with "1.prems"(1) have hlt: "?h < length (column m)" by (simp add: sound_def)
    from "1.prems"(2) False have nz: "columnSize m ?h \<noteq> 0"
      by (auto simp: search.simps [of N m] split: if_splits)
    with "1.prems"(2) False
    have run: "tryRows N ?h (cover N ?h m) (column m ! ?h) = Some sol"
      by (simp add: search.simps [of N m])
    from "1.prems"(1) have s': "sound N cands (cover N ?h m)" by (rule sound_cover)
    from "1.prems"(1) hlt
    have rows: "\<forall>r \<in> set (column m ! ?h). r \<in> set cands \<and> ?h \<in> set (touched N r)"
      by (simp add: sound_def)
    from "1.IH" [OF False nz s' rows run]
    have sub: "set sol \<subseteq> set cands"
      and ch: "\<exists>x \<in> set sol. ?h \<in> set (touched N x)"
      and rest: "\<forall>h' \<in> set (active (cover N ?h m)). \<exists>x \<in> set sol. h' \<in> set (touched N x)"
      by blast+
    have "\<exists>x \<in> set sol. h' \<in> set (touched N x)" if "h' \<in> set (active m)" for h'
    proof (cases "h' = ?h")
      case True
      with ch show ?thesis by simp
    next
      case False
      with that have "h' \<in> set (active (cover N ?h m))" by (simp add: active_cover)
      with rest show ?thesis by blast
    qed
    with sub show ?thesis by blast
  qed
next
  case (2 N h m)
  then show ?case by simp
next
  case (3 N h m r rs)
  let ?m1 = "fold (cover N) (rightOf N h r) m"
  from "3.prems"(1) have s1: "sound N cands ?m1" by (rule sound_covers)
  from "3.prems"(2) have r: "r \<in> set cands" "h \<in> set (touched N r)" by simp_all
  show ?case
  proof (cases "search N ?m1")
    case None
    with "3.prems"(3) have "tryRows N h m rs = Some sol'" by simp
    moreover from "3.prems"(2) have "\<forall>r \<in> set rs. r \<in> set cands \<and> h \<in> set (touched N r)" by simp
    ultimately show ?thesis using "3.IH"(2) [OF None "3.prems"(1)] by blast
  next
    case (Some sol1)
    with "3.prems"(3) have sol': "sol' = r # sol1" by simp
    from "3.IH"(1) [OF s1 Some]
    have sub: "set sol1 \<subseteq> set cands"
      and rest: "\<forall>h' \<in> set (active ?m1). \<exists>x \<in> set sol1. h' \<in> set (touched N x)"
      by blast+
    have "\<exists>x \<in> set sol'. h' \<in> set (touched N x)" if "h' \<in> set (active m)" for h'
    proof -
      from that active_covers_rest [of m N "rightOf N h r"]
      have "h' \<in> set (active ?m1) \<or> h' \<in> set (rightOf N h r)" by blast
      then show ?thesis
      proof
        assume "h' \<in> set (active ?m1)"
        with rest sol' show ?thesis by auto
      next
        assume "h' \<in> set (rightOf N h r)"
        with rightOf_touched have "h' \<in> set (touched N r)" by blast
        with sol' show ?thesis by simp
      qed
    qed
    with sub r sol' show ?thesis by auto
  qed
qed

lemma candidateId_decode:
  assumes "r < N" "c < N" "1 \<le> d" "d \<le> N"
  shows "candidateRow N (candidateId N r c d) = r"
    and "candidateCol N (candidateId N r c d) = c"
    and "candidateDigit N (candidateId N r c d) = d"
proof -
  from assms have N: "0 < N" and d: "d - 1 < N" by simp_all
  have q: "((r * N + c) * N + (d - 1)) div N = r * N + c"
    using d by simp
  have "((r * N + c) * N + (d - 1)) div (N * N) = (r * N + c) div N"
    by (simp only: div_mult2_eq q)
  also have "\<dots> = r" using assms(2) by simp
  finally show "candidateRow N (candidateId N r c d) = r"
    by (simp add: candidateRow_def candidateId_def)
  from q assms(2) show "candidateCol N (candidateId N r c d) = c"
    by (simp add: candidateCol_def candidateId_def)
  from d have "((r * N + c) * N + (d - 1)) mod N = d - 1" by simp
  with assms(3) show "candidateDigit N (candidateId N r c d) = d"
    by (simp only: candidateDigit_def candidateId_def)
qed

lemma gridUpTo_cell:
  assumes "gridUpTo N cells" "r < N" "c < N"
  shows "cells ! r ! c \<le> int N"
proof -
  from assms(1) have sq: "squareGrid N cells"
    and all: "list_all (list_all (\<lambda>v. v \<le> int N)) cells"
    by (simp_all add: gridUpTo_def)
  from sq assms(2,3) have "cells ! r ! c \<in> set (concat cells)" by (rule squareGrid_concat(3))
  with all show ?thesis by (auto simp: list_all_iff)
qed

lemma validGrid_cell:
  assumes "validGrid N cells" "r < N" "c < N"
  shows "0 \<le> cells ! r ! c \<and> cells ! r ! c \<le> int N"
proof -
  from assms(1) have sq: "squareGrid N cells"
    and all: "list_all (list_all (\<lambda>v. 0 \<le> v \<and> v \<le> int N)) cells"
    by (simp_all add: validGrid_def)
  from sq assms(2,3) have "cells ! r ! c \<in> set (concat cells)" by (rule squareGrid_concat(3))
  with all show ?thesis by (auto simp: list_all_iff)
qed

lemma validGrid_upTo: "validGrid N cells \<Longrightarrow> gridUpTo N cells"
  by (auto simp: validGrid_def gridUpTo_def list_all_iff)

lemma candidates_shape:
  assumes v: "gridUpTo N cells" and x: "x \<in> set (candidates N cells)"
  shows "\<exists>r c d. r < N \<and> c < N \<and> 1 \<le> d \<and> d \<le> N \<and> x = candidateId N r c d \<and>
           (1 \<le> cells ! r ! c \<longrightarrow> int d = cells ! r ! c)"
proof -
  from x obtain r c where r: "r < N" and c: "c < N" and
    mem: "x \<in> set (if cells ! r ! c < 1 then map (candidateId N r c) [1..<Suc N]
                   else [candidateId N r c (nat (cells ! r ! c))])"
    by (auto simp: candidates_def)
  show ?thesis
  proof (cases "cells ! r ! c < 1")
    case True
    with mem obtain d where "1 \<le> d" "d \<le> N" "x = candidateId N r c d" by auto
    moreover from True have "1 \<le> cells ! r ! c \<longrightarrow> int d = cells ! r ! c" by simp
    ultimately show ?thesis using r c by blast
  next
    case False
    from gridUpTo_cell [OF v r c] False
    have "1 \<le> nat (cells ! r ! c)" "nat (cells ! r ! c) \<le> N" "int (nat (cells ! r ! c)) = cells ! r ! c"
      by linarith+
    moreover from mem False have "x = candidateId N r c (nat (cells ! r ! c))" by simp
    ultimately show ?thesis using r c by blast
  qed
qed

lemma candidateCol_bound: "0 < N \<Longrightarrow> candidateCol N x < N"
  by (simp add: candidateCol_def)

lemma candidateDigit_range: "0 < N \<Longrightarrow> 1 \<le> candidateDigit N x \<and> candidateDigit N x \<le> N"
proof -
  assume "0 < N"
  then have "x mod N < N" by simp
  then show ?thesis by (simp add: candidateDigit_def)
qed

lemma touched_cell:
  assumes "r < N" "c < N" "r * N + c \<in> set (touched N x)"
  shows "candidateRow N x = r \<and> candidateCol N x = c"
proof -
  from assms(1) have N: "0 < N" by simp
  from assms(1,2) have lt: "r * N + c < N * N" by (rule cell_index_bound)
  with assms(3) have "r * N + c = candidateRow N x * N + candidateCol N x"
    by (auto simp: touched_def Let_def)
  with assms(2) candidateCol_bound [OF N, of x] show ?thesis
    using cell_position [of c N r "candidateRow N x * N + candidateCol N x"]
      cell_position [of "candidateCol N x" N "candidateRow N x" "candidateRow N x * N + candidateCol N x"]
    by simp
qed

lemma writeCandidate_square:
  "squareGrid N g \<Longrightarrow> squareGrid N (writeCandidate N x g)"
  unfolding writeCandidate_def by (rule squareGrid_update)

lemma writeCandidates_square:
  "squareGrid N g \<Longrightarrow> squareGrid N (fold (writeCandidate N) chosen g)"
  by (induction chosen arbitrary: g) (simp_all add: writeCandidate_square)

lemma writeCandidate_nth:
  assumes "squareGrid N g" "r < N" "c < N"
  shows "writeCandidate N x g ! r ! c =
     (if candidateRow N x = r \<and> candidateCol N x = c then int (candidateDigit N x) else g ! r ! c)"
proof (cases "candidateRow N x = r")
  case True
  from assms True have len: "length g = N" and row: "length (g ! candidateRow N x) = N"
    by (simp_all add: squareGrid_def squareGrid_row)
  with assms True show ?thesis
    by (simp add: writeCandidate_def nth_list_update)
next
  case False
  then show ?thesis by (simp add: writeCandidate_def)
qed

lemma written_cell:
  assumes "squareGrid N g" "r < N" "c < N"
    and "\<forall>x \<in> set chosen. candidateRow N x = r \<and> candidateCol N x = c \<longrightarrow> Q (int (candidateDigit N x))"
    and "(\<exists>x \<in> set chosen. candidateRow N x = r \<and> candidateCol N x = c) \<or> Q (g ! r ! c)"
  shows "Q (fold (writeCandidate N) chosen g ! r ! c)"
  using assms
proof (induction chosen arbitrary: g)
  case Nil
  then show ?case by simp
next
  case (Cons x xs)
  let ?g1 = "writeCandidate N x g"
  from Cons.prems(1) have sq1: "squareGrid N ?g1" by (rule writeCandidate_square)
  have cell: "?g1 ! r ! c =
     (if candidateRow N x = r \<and> candidateCol N x = c then int (candidateDigit N x) else g ! r ! c)"
    using Cons.prems(1,2,3) by (rule writeCandidate_nth)
  have "(\<exists>y \<in> set xs. candidateRow N y = r \<and> candidateCol N y = c) \<or> Q (?g1 ! r ! c)"
  proof (cases "candidateRow N x = r \<and> candidateCol N x = c")
    case True
    with Cons.prems(4) cell show ?thesis by simp
  next
    case False
    with Cons.prems(5) cell show ?thesis by auto
  qed
  moreover from Cons.prems(4)
  have "\<forall>y \<in> set xs. candidateRow N y = r \<and> candidateCol N y = c \<longrightarrow> Q (int (candidateDigit N y))"
    by simp
  ultimately have "Q (fold (writeCandidate N) xs ?g1 ! r ! c)"
    using sq1 Cons.prems(2,3) by (intro Cons.IH)
  then show ?case by simp
qed

lemma solve_result:
  assumes "solve cells = Some cells'"
  shows "\<exists>chosen. search (length cells) (build (length cells) (candidates (length cells) cells)) = Some chosen \<and>
     cells' = fold (writeCandidate (length cells)) chosen (replicate (length cells) (replicate (length cells) 0))"
  using assms by (auto simp: solve_def Let_def split: option.splits)

lemma fresh_square: "squareGrid N (replicate N (replicate N (0::int)))"
  by (simp add: squareGrid_def list_all_iff)

lemma chosen_covers:
  assumes run: "search N (build N cands) = Some chosen" and r: "r < N" and c: "c < N"
  shows "\<exists>x \<in> set chosen. candidateRow N x = r \<and> candidateCol N x = c"
proof -
  from search_sound(1) [OF sound_build run]
  have cov: "\<forall>h \<in> set (active (build N cands)). \<exists>x \<in> set chosen. h \<in> set (touched N x)"
    by blast
  have "r * N + c < N * N" using r c by (rule cell_index_bound)
  then have "r * N + c \<in> set (active (build N cands))" by (simp add: active_build)
  with cov obtain x where x: "x \<in> set chosen" "r * N + c \<in> set (touched N x)" by blast
  from touched_cell [OF r c x(2)] x(1) show ?thesis by blast
qed

lemma solve_completes:
  assumes s: "solve G = Some G'"
  shows "squareGrid (length G) G'"
    and "r < length G \<Longrightarrow> c < length G \<Longrightarrow> 1 \<le> G' ! r ! c \<and> G' ! r ! c \<le> int (length G)"
proof -
  let ?N = "length G"
  from solve_result [OF s] obtain chosen where
    run: "search ?N (build ?N (candidates ?N G)) = Some chosen" and
    G': "G' = fold (writeCandidate ?N) chosen (replicate ?N (replicate ?N 0))" by auto
  from G' show "squareGrid ?N G'" by (simp add: writeCandidates_square fresh_square)
  assume r: "r < ?N" and c: "c < ?N"
  then have N: "0 < ?N" by (cases G) simp_all
  let ?Q = "\<lambda>u. 1 \<le> u \<and> u \<le> int ?N"
  have "\<forall>x \<in> set chosen. candidateRow ?N x = r \<and> candidateCol ?N x = c
      \<longrightarrow> ?Q (int (candidateDigit ?N x))"
    using candidateDigit_range [OF N] by auto
  moreover from chosen_covers [OF run r c]
  have "(\<exists>x \<in> set chosen. candidateRow ?N x = r \<and> candidateCol ?N x = c)
      \<or> ?Q (replicate ?N (replicate ?N 0) ! r ! c)" by blast
  ultimately have "?Q (fold (writeCandidate ?N) chosen (replicate ?N (replicate ?N 0)) ! r ! c)"
    using fresh_square r c by (intro written_cell [where Q = ?Q])
  with G' show "1 \<le> G' ! r ! c \<and> G' ! r ! c \<le> int ?N" by simp
qed

lemma givens_kept:
  assumes v: "gridUpTo N G" and s: "solve G = Some G'"
    and r: "r < N" and c: "c < N" and given: "1 \<le> G ! r ! c"
  shows "G' ! r ! c = G ! r ! c"
proof -
  from v have len: "length G = N" by (simp add: gridUpTo_def squareGrid_def)
  let ?cands = "candidates N G"
  from solve_result [OF s] len obtain chosen where
    run: "search N (build N ?cands) = Some chosen" and
    G': "G' = fold (writeCandidate N) chosen (replicate N (replicate N 0))" by auto
  from search_sound(1) [OF sound_build run]
  have sub: "set chosen \<subseteq> set ?cands" by blast
  have shape: "\<exists>r' c' d. r' < N \<and> c' < N \<and> 1 \<le> d \<and> d \<le> N \<and> x = candidateId N r' c' d \<and>
           (1 \<le> G ! r' ! c' \<longrightarrow> int d = G ! r' ! c')" if "x \<in> set chosen" for x
    using candidates_shape [OF v, of x] sub that by blast
  let ?Q = "\<lambda>u. u = G ! r ! c"
  have digits: "\<forall>x \<in> set chosen. candidateRow N x = r \<and> candidateCol N x = c
      \<longrightarrow> ?Q (int (candidateDigit N x))"
  proof (intro ballI impI)
    fix x assume x: "x \<in> set chosen" and at: "candidateRow N x = r \<and> candidateCol N x = c"
    from shape [OF x] obtain r' c' d where
      d: "r' < N" "c' < N" "1 \<le> d" "d \<le> N" "x = candidateId N r' c' d"
        "1 \<le> G ! r' ! c' \<longrightarrow> int d = G ! r' ! c'" by blast
    with at have "r' = r" "c' = c" "candidateDigit N x = d"
      by (simp_all add: candidateId_decode)
    with d(6) given show "int (candidateDigit N x) = G ! r ! c" by simp
  qed
  from chosen_covers [OF run r c]
  have ex: "(\<exists>x \<in> set chosen. candidateRow N x = r \<and> candidateCol N x = c)
      \<or> ?Q (replicate N (replicate N 0) ! r ! c)" by blast
  from written_cell [where Q = ?Q, OF fresh_square r c digits ex] G' show ?thesis by simp
qed

section \<open>Facts about creating the grid\<close>

lemma wholeSqrt_Some: "wholeSqrt n = Some k \<Longrightarrow> k * k = n"
  by (auto simp: wholeSqrt_def find_Some_iff)

lemma wholeSqrt_None: "(wholeSqrt n = None) = (\<not> (\<exists>k. k * k = n))"
proof -
  have "k \<in> set [0..<Suc n]" if "k * k = n" for k
  proof -
    from that have "k \<le> k * k \<or> k = 0" by (cases k) auto
    with that show ?thesis by auto
  qed
  then show ?thesis by (auto simp: wholeSqrt_def find_None_iff)
qed

lemma grid_fold:
  assumes "\<And>x w. grid (F x w) = G x (grid w)"
  shows "grid (fold F xs w) = fold G xs (grid w)"
  by (induction xs arbitrary: w) (simp_all add: assms)

lemma grid_addCell: "grid (addCell r w) = appendCell r (grid w)"
  by (simp add: addCell_def appendCell_def)

lemma fold_fold_concat: "fold (\<lambda>x. fold g (h x)) xs = fold g (concat (map h xs))"
proof
  fix s show "fold (\<lambda>x. fold g (h x)) xs s = fold g (concat (map h xs)) s"
    by (induction xs arbitrary: s) simp_all
qed

lemma grid_addRegion: "grid (addRegion R si w) = fold appendCell (regionRows R si) (grid w)"
proof -
  have inner: "grid (fold (\<lambda>j. addCell r) js w') = fold appendCell (map (\<lambda>j. r) js) (grid w')"
    for r js w'
    by (simp add: grid_fold [where G = "\<lambda>j. appendCell r"] grid_addCell fold_map comp_def)
  have "grid (fold (\<lambda>i. fold (\<lambda>j. addCell (i + si * R)) [0..<R]) is w')
      = fold (\<lambda>i. fold appendCell (map (\<lambda>j. i + si * R) [0..<R])) is (grid w')" for "is" w'
    by (rule grid_fold) (rule inner)
  then show ?thesis
    by (simp add: addRegion_def Let_def regionRows_def fold_fold_concat)
qed

lemma grid_regions:
  "grid (fold (\<lambda>si. fold (\<lambda>sj. addRegion R si) [0..<R]) [0..<R] w) = fold appendCell (cellRows R) (grid w)"
proof -
  have band: "grid (fold (\<lambda>sj. addRegion R si) js w')
      = fold (\<lambda>sj. fold appendCell (regionRows R si)) js (grid w')" for si js w'
    by (rule grid_fold) (rule grid_addRegion)
  have "grid (fold (\<lambda>si. fold (\<lambda>sj. addRegion R si) [0..<R]) sis w')
      = fold (\<lambda>si. fold (\<lambda>sj. fold appendCell (regionRows R si)) [0..<R]) sis (grid w')" for sis w'
    by (rule grid_fold) (rule band)
  then show ?thesis
    by (simp add: cellRows_def fold_fold_concat)
qed

lemma appendCells_rows:
  "\<forall>r \<in> set rs. r < length g \<Longrightarrow>
   length (fold appendCell rs g) = length g \<and>
   (\<forall>k < length g. fold appendCell rs g ! k = g ! k @ replicate (count_list rs k) [])"
proof (induction rs arbitrary: g)
  case Nil
  then show ?case by simp
next
  case (Cons r rs)
  let ?g1 = "appendCell r g"
  have len1: "length ?g1 = length g" by (simp add: appendCell_def)
  from Cons.prems have r: "r < length g" by simp
  from Cons.prems len1 have "\<forall>r \<in> set rs. r < length ?g1" by simp
  from Cons.IH [OF this] len1
  have len: "length (fold appendCell rs ?g1) = length g"
    and rows: "\<forall>k < length g. fold appendCell rs ?g1 ! k = ?g1 ! k @ replicate (count_list rs k) []"
    by simp_all
  have "fold appendCell (r # rs) g ! k = g ! k @ replicate (count_list (r # rs) k) []"
    if k: "k < length g" for k
  proof (cases "k = r")
    case True
    with r have "?g1 ! k = g ! k @ [[]]" by (simp add: appendCell_def)
    with rows k True show ?thesis by (simp add: replicate_app_Cons_same)
  next
    case False
    then have "?g1 ! k = g ! k" by (simp add: appendCell_def)
    with rows k False show ?thesis by simp
  qed
  with len show ?case by simp
qed

lemma count_list_concat:
  "count_list (concat xss) k = sum_list (map (\<lambda>xs. count_list xs k) xss)"
  by (induction xss) simp_all

lemma count_list_const: "count_list (map (\<lambda>j. r) [0..<n]) k = (if r = k then n else 0)"
  by (induction n) auto

lemma sum_list_single:
  "sum_list (map (\<lambda>i. if i = a then c else 0) [0..<n]) = (if a < n then c else (0::nat))"
  by (induction n) auto

lemma sum_list_const: "sum_list (map (\<lambda>i. c) [0..<n]) = n * (c::nat)"
  by (induction n) auto

lemma count_regionRows:
  assumes "0 < R"
  shows "count_list (regionRows R si) k = (if si = k div R then R else 0)"
proof -
  have "count_list (regionRows R si) k
      = sum_list (map (\<lambda>i. if i + si * R = k then R else 0) [0..<R])"
    by (simp add: regionRows_def count_list_concat comp_def count_list_const)
  also have "\<dots> = sum_list (map (\<lambda>i. if i = k mod R \<and> si = k div R then R else 0) [0..<R])"
  proof (rule arg_cong [where f = sum_list], rule map_cong [OF refl])
    fix i assume "i \<in> set [0..<R]"
    then have "i < R" by simp
    then have "(si * R + i = k) = (si = k div R \<and> i = k mod R)" by (rule cell_position)
    then show "(if i + si * R = k then R else 0) = (if i = k mod R \<and> si = k div R then R else 0)"
      by (auto simp: add.commute)
  qed
  also have "\<dots> = (if si = k div R then R else 0)"
  proof (cases "si = k div R")
    case True
    with assms show ?thesis by (simp add: sum_list_single)
  next
    case False
    then show ?thesis by (simp add: sum_list_const)
  qed
  finally show ?thesis .
qed

lemma count_cellRows:
  assumes "0 < R" "k < R * R"
  shows "count_list (cellRows R) k = R * R"
proof -
  from assms have "k div R < R" by (simp add: less_mult_imp_div_less)
  have "count_list (cellRows R) k
      = sum_list (map (\<lambda>si. R * (if si = k div R then R else 0)) [0..<R])"
    by (simp add: cellRows_def count_list_concat comp_def count_regionRows [OF assms(1)] sum_list_const)
  also have "\<dots> = sum_list (map (\<lambda>si. if si = k div R then R * R else 0) [0..<R])"
    by (rule arg_cong [where f = sum_list]) auto
  also have "\<dots> = R * R" using \<open>k div R < R\<close> by (simp add: sum_list_single)
  finally show ?thesis .
qed

lemma cellRows_bound:
  assumes "r \<in> set (cellRows R)"
  shows "r < R * R"
proof -
  from assms obtain si i where "si < R" "i < R" "r = i + si * R"
    by (auto simp: cellRows_def regionRows_def)
  then show ?thesis using cell_index_bound [of si R i] by (simp add: add.commute)
qed

lemma filled_grid:
  assumes "0 < R"
  shows "fold appendCell (cellRows R) (replicate (R * R) []) = replicate (R * R) (replicate (R * R) [])"
proof -
  let ?g0 = "replicate (R * R) ([]::string list)"
  have "\<forall>r \<in> set (cellRows R). r < length ?g0" by (simp add: cellRows_bound)
  from appendCells_rows [OF this]
  have len: "length (fold appendCell (cellRows R) ?g0) = R * R"
    and rows: "\<forall>k < R * R. fold appendCell (cellRows R) ?g0 ! k
        = ?g0 ! k @ replicate (count_list (cellRows R) k) []" by simp_all
  show ?thesis
  proof (rule nth_equalityI)
    from len show "length (fold appendCell (cellRows R) ?g0)
        = length (replicate (R * R) (replicate (R * R) ([]::string)))" by simp
  next
    fix k assume "k < length (fold appendCell (cellRows R) ?g0)"
    with len have k: "k < R * R" by simp
    with rows count_cellRows [OF assms k]
    show "fold appendCell (cellRows R) ?g0 ! k = replicate (R * R) (replicate (R * R) []) ! k"
      by simp
  qed
qed

lemma fold_last:
  assumes "\<And>x w. P (F x w)" "xs \<noteq> []"
  shows "P (fold F xs w)"
  using assms(2) by (cases xs rule: rev_cases) (simp_all add: assms(1))

lemma widgets_regions:
  assumes "0 < R"
  shows "sudokuGridWidgets (fold (\<lambda>si. fold (\<lambda>sj. addRegion C si) [0..<R]) [0..<R] w) \<noteq> 0"
proof -
  from assms have ne: "[0..<R] \<noteq> []" by simp
  have inner: "sudokuGridWidgets (fold (\<lambda>sj. addRegion C si) [0..<R] w') \<noteq> 0" for si w'
    using _ ne by (rule fold_last) (simp add: addRegion_def Let_def)
  show ?thesis
    using _ ne by (rule fold_last) (rule inner)
qed

lemma square_side:
  assumes "4 \<le> sz" "wholeSqrt (nat sz) = Some R"
  shows "R * R = nat sz" "0 < R" "nat sz div R = R"
proof -
  from assms(2) show sq: "R * R = nat sz" by (rule wholeSqrt_Some)
  with assms(1) show pos: "0 < R" by (cases R) auto
  from sq pos show "nat sz div R = R" by (metis nonzero_mult_div_cancel_left less_numeral_extra(3))
qed

lemma generateGrid_fails:
  "sz < 4 \<or> wholeSqrt (nat sz) = None \<Longrightarrow> generateGrid sz w = (False, w)"
  by (auto simp: generateGrid_def)

lemma generateGrid_succeeds:
  assumes inv: "grid w \<noteq> [] \<longrightarrow> sudokuGridWidgets w \<noteq> 0"
    and sz: "4 \<le> sz" and R: "wholeSqrt (nat sz) = Some R"
  shows "fst (generateGrid sz w)"
    and "grid (snd (generateGrid sz w)) = replicate (nat sz) (replicate (nat sz) [])"
    and "sudokuGridWidgets (snd (generateGrid sz w)) \<noteq> 0"
proof -
  note side = square_side [OF sz R]
  let ?w1 = "if sudokuGridWidgets w \<noteq> 0 then w\<lparr>grid := [], sudokuGridWidgets := 0\<rparr> else w"
  let ?w2 = "?w1\<lparr>grid := grid ?w1 @ replicate (nat sz) []\<rparr>"
  from inv have "grid ?w1 = []" by auto
  then have g2: "grid ?w2 = replicate (R * R) []" by (simp add: side(1))
  have res: "generateGrid sz w
      = (True, fold (\<lambda>si. fold (\<lambda>sj. addRegion R si) [0..<R]) [0..<R] ?w2)"
    using sz R side(3) by (simp add: generateGrid_def Let_def)
  from res show "fst (generateGrid sz w)" by simp
  from res have "grid (snd (generateGrid sz w)) = fold appendCell (cellRows R) (grid ?w2)"
    by (simp only: snd_conv grid_regions)
  also have "\<dots> = replicate (R * R) (replicate (R * R) [])"
    by (simp only: g2 filled_grid [OF side(2)])
  finally show "grid (snd (generateGrid sz w)) = replicate (nat sz) (replicate (nat sz) [])"
    by (simp only: side(1))
  from res have "snd (generateGrid sz w)
      = fold (\<lambda>si. fold (\<lambda>sj. addRegion R si) [0..<R]) [0..<R] ?w2" by simp
  with widgets_regions [OF side(2), of R ?w2]
  show "sudokuGridWidgets (snd (generateGrid sz w)) \<noteq> 0" by (simp only: simp_thms)
qed

lemma int_square_iff:
  assumes "0 \<le> sz"
  shows "(\<exists>R::int. R * R = sz) = (\<exists>k::nat. k * k = nat sz)"
proof
  assume "\<exists>R::int. R * R = sz"
  then obtain R :: int where R: "R * R = sz" by blast
  have "nat (\<bar>R\<bar> * \<bar>R\<bar>) = nat \<bar>R\<bar> * nat \<bar>R\<bar>" by (rule nat_mult_distrib) simp
  then have "nat \<bar>R\<bar> * nat \<bar>R\<bar> = nat (\<bar>R\<bar> * \<bar>R\<bar>)" by simp
  also have "\<dots> = nat sz" using R by (simp add: abs_mult_self_eq)
  finally show "\<exists>k::nat. k * k = nat sz" by blast
next
  assume "\<exists>k::nat. k * k = nat sz"
  then obtain k :: nat where "k * k = nat sz" by blast
  then have "int k * int k = int (nat sz)" by (metis of_nat_mult)
  with assms show "\<exists>R::int. R * R = sz" by auto
qed

lemma square_root_unique: "(a::nat) * a = b * b \<Longrightarrow> a = b"
proof -
  assume "a * a = b * b"
  then have "a ^ 2 = b ^ 2" by (simp add: power2_eq_square)
  then show "a = b" by simp
qed

lemma wholeSqrt_square: "wholeSqrt (M * M) = Some M"
proof (cases "wholeSqrt (M * M)")
  case None
  then show ?thesis using wholeSqrt_None [of "M * M"] by blast
next
  case (Some k)
  then have "k * k = M * M" by (rule wholeSqrt_Some)
  then have "k = M" by (rule square_root_unique)
  with Some show ?thesis by simp
qed

lemma import_loads:
  assumes sq: "squareGrid M g" and len: "length text = M * M"
  shows "\<exists>g'. stringGridToUIGrid text g = Inr g' \<and> squareGrid M g' \<and>
     (\<forall>a<M. \<forall>b<M. g' ! a ! b = setCellValue [] (digitValue (text ! (a * M + b))))"
proof -
  from load_square [OF sq, of "text"] len obtain g' where
    run: "stringGridToUIGrid text g = Inr g'" and sq': "squareGrid M g'" and
    c: "\<forall>a<M. \<forall>b<M. g' ! a ! b =
        (if a * M + b < length text then setCellValue (g ! a ! b) (digitValue (text ! (a * M + b)))
         else g ! a ! b)" by auto
  have "g' ! a ! b = setCellValue [] (digitValue (text ! (a * M + b)))" if "a < M" "b < M" for a b
    using c that len cell_index_bound [OF that] by (simp add: setCellValue_def)
  with run sq' show ?thesis by blast
qed

section \<open>Facts about showing a grid and about the grids the window reaches\<close>

lemma show_row:
  "i < length g \<Longrightarrow> j + length vs \<le> length (g ! i) \<Longrightarrow>
   \<exists>g'. gridToUIGrid_row i j vs g = Inr g' \<and> length g' = length g \<and>
     (\<forall>a<length g. length (g' ! a) = length (g ! a)) \<and>
     (\<forall>a<length g. \<forall>b<length (g ! a). g' ! a ! b =
        (if a = i \<and> j \<le> b \<and> b < j + length vs then setCellValue [] (vs ! (b - j)) else g ! a ! b))"
proof (induction vs arbitrary: j g)
  case Nil
  then show ?case by auto
next
  case (Cons v vs)
  let ?g1 = "g[i := (g ! i)[j := setCellValue (g ! i ! j) v]]"
  from Cons.prems have j: "j < length (g ! i)" by simp
  from Cons.prems have len1: "length ?g1 = length g" by simp
  have rows1: "length (?g1 ! a) = length (g ! a)" if "a < length g" for a
    using that by (cases "a = i") simp_all
  from Cons.prems len1 rows1 [of i]
  have "i < length ?g1" "Suc j + length vs \<le> length (?g1 ! i)" by simp_all
  from Cons.IH [OF this] obtain g' where
    run: "gridToUIGrid_row i (Suc j) vs ?g1 = Inr g'" and len: "length g' = length ?g1" and
    rows: "\<forall>a<length ?g1. length (g' ! a) = length (?g1 ! a)" and
    cells: "\<forall>a<length ?g1. \<forall>b<length (?g1 ! a). g' ! a ! b =
        (if a = i \<and> Suc j \<le> b \<and> b < Suc j + length vs then setCellValue [] (vs ! (b - Suc j))
         else ?g1 ! a ! b)" by blast
  from Cons.prems(1) j run
  have "gridToUIGrid_row i j (v # vs) g = Inr g'" by simp
  moreover from len len1 have "length g' = length g" by simp
  moreover from rows len1 rows1 have "\<forall>a<length g. length (g' ! a) = length (g ! a)" by simp
  moreover have "g' ! a ! b =
        (if a = i \<and> j \<le> b \<and> b < j + length (v # vs) then setCellValue [] ((v # vs) ! (b - j))
         else g ! a ! b)" if a: "a < length g" and b: "b < length (g ! a)" for a b
  proof -
    from a b len1 rows1 [OF a] cells
    have c: "g' ! a ! b =
        (if a = i \<and> Suc j \<le> b \<and> b < Suc j + length vs then setCellValue [] (vs ! (b - Suc j))
         else ?g1 ! a ! b)" by simp
    show ?thesis
    proof (cases "a = i \<and> b = j")
      case True
      with c Cons.prems(1) j show ?thesis by (simp add: setCellValue_def)
    next
      case False
      then have same: "?g1 ! a ! b = g ! a ! b"
        using a by (cases "a = i") simp_all
      show ?thesis
      proof (cases "a = i \<and> Suc j \<le> b \<and> b < Suc j + length vs")
        case True
        then obtain k where "b - j = Suc k" "b - Suc j = k"
          by (metis Suc_diff_Suc Suc_le_lessD)
        with c True show ?thesis by simp
      next
        case no: False
        with False have "\<not> (a = i \<and> j \<le> b \<and> b < j + length (v # vs))" by auto
        with c no same show ?thesis by (simp only: if_False)
      qed
    qed
  qed
  ultimately show ?case by blast
qed

lemma show_rows:
  "squareGrid N g \<Longrightarrow> \<forall>r \<in> set rs. length r = N \<Longrightarrow> i + length rs \<le> N \<Longrightarrow>
   \<exists>g'. gridToUIGrid_rows i rs g = Inr g' \<and> squareGrid N g' \<and>
     (\<forall>a<N. \<forall>b<N. g' ! a ! b =
        (if i \<le> a \<and> a < i + length rs then setCellValue [] (rs ! (a - i) ! b) else g ! a ! b))"
proof (induction rs arbitrary: i g)
  case Nil
  then show ?case by auto
next
  case (Cons r rs)
  from Cons.prems have i: "i < N" and lenr: "length r = N" by simp_all
  from Cons.prems(1) have len: "length g = N" and rowlen: "\<forall>a<N. length (g ! a) = N"
    by (simp_all add: squareGrid_def list_all_length)
  from i len rowlen lenr have "i < length g" "0 + length r \<le> length (g ! i)" by simp_all
  from show_row [OF this] len rowlen lenr obtain g1 where
    run1: "gridToUIGrid_row i 0 r g = Inr g1" and len1: "length g1 = N" and
    rows1: "\<forall>a<N. length (g1 ! a) = N" and
    cells1: "\<forall>a<N. \<forall>b<N. g1 ! a ! b = (if a = i then setCellValue [] (r ! b) else g ! a ! b)"
    by auto
  from len1 rows1 have sq1: "squareGrid N g1" by (simp add: squareGrid_def list_all_length)
  from Cons.prems have "\<forall>r \<in> set rs. length r = N" "Suc i + length rs \<le> N" by simp_all
  from Cons.IH [OF sq1 this] obtain g' where
    run: "gridToUIGrid_rows (Suc i) rs g1 = Inr g'" and sq': "squareGrid N g'" and
    cells: "\<forall>a<N. \<forall>b<N. g' ! a ! b =
        (if Suc i \<le> a \<and> a < Suc i + length rs then setCellValue [] (rs ! (a - Suc i) ! b)
         else g1 ! a ! b)" by blast
  from run1 run have "gridToUIGrid_rows i (r # rs) g = Inr g'" by simp
  moreover have "g' ! a ! b =
        (if i \<le> a \<and> a < i + length (r # rs) then setCellValue [] ((r # rs) ! (a - i) ! b)
         else g ! a ! b)" if a: "a < N" and b: "b < N" for a b
  proof (cases "a = i")
    case True
    with cells cells1 a b show ?thesis by simp
  next
    case False
    show ?thesis
    proof (cases "Suc i \<le> a \<and> a < Suc i + length rs")
      case True
      then obtain k where "a - i = Suc k" "a - Suc i = k"
        by (metis Suc_diff_Suc Suc_le_lessD)
      with cells a b True show ?thesis by simp
    next
      case no: False
      with False have out: "\<not> (i \<le> a \<and> a < i + length (r # rs))" by auto
      from cells [rule_format, OF a b] no have "g' ! a ! b = g1 ! a ! b" by (simp only: if_False)
      also from cells1 [rule_format, OF a b] False have "\<dots> = g ! a ! b" by simp
      finally show ?thesis using out by (simp only: if_False)
    qed
  qed
  ultimately show ?case using sq' by blast
qed

lemma resetGrid_square: "squareGrid N g \<Longrightarrow> squareGrid N (resetGrid g)"
  by (simp add: squareGrid_def resetGrid_def list_all_iff)

lemma show_grid:
  assumes "squareGrid N sudoku" "squareGrid N g"
  shows "\<exists>g'. gridToUIGrid sudoku g = Inr g' \<and> squareGrid N g' \<and>
     (\<forall>a<N. \<forall>b<N. g' ! a ! b = setCellValue [] (sudoku ! a ! b))"
proof -
  from assms(1) have rows: "\<forall>r \<in> set sudoku. length r = N" and len: "length sudoku = N"
    by (simp_all add: squareGrid_def list_all_iff)
  from resetGrid_square [OF assms(2)] rows len
  have "\<exists>g'. gridToUIGrid_rows 0 sudoku (resetGrid g) = Inr g' \<and> squareGrid N g' \<and>
     (\<forall>a<N. \<forall>b<N. g' ! a ! b =
        (if 0 \<le> a \<and> a < 0 + length sudoku then setCellValue [] (sudoku ! (a - 0) ! b)
         else resetGrid g ! a ! b))"
    by (intro show_rows) simp_all
  with len show ?thesis by (auto simp: gridToUIGrid_def)
qed

lemma UIGridToGrid_square: "squareGrid N g \<Longrightarrow> squareGrid N (UIGridToGrid g)"
  by (simp add: UIGridToGrid_map squareGrid_def list_all_iff)

lemma UIGridToGrid_nth:
  assumes "squareGrid N g" "r < N" "c < N"
  shows "UIGridToGrid g ! r ! c = cellValue (g ! r ! c)"
proof -
  from assms have "length g = N" "length (g ! r) = N"
    by (simp_all add: squareGrid_def squareGrid_row)
  with assms show ?thesis by (simp add: UIGridToGrid_map)
qed

lemma validCell_value:
  assumes "validCell M cell" "int M < 2 ^ 31"
  shows "(cell = [] \<longrightarrow> cellValue cell = - 1) \<and>
    (cell \<noteq> [] \<longrightarrow> 1 \<le> cellValue cell \<and> cellValue cell \<le> int M \<and> cell = number (cellValue cell))"
proof (cases "cell = []")
  case True
  then show ?thesis by (simp add: cellValue_def)
next
  case False
  from assms(2) have M: "M < 2 ^ 31" by simp
  from assms(1) False obtain x where x: "1 \<le> x" "x \<le> M" "cell = number (int x)"
    by (auto simp: validCell_iff)
  with M have "cellValue cell = int x" by (simp add: cellValue_valid)
  with x False show ?thesis by simp
qed

lemma setCellValue_valid:
  assumes "v \<le> int M"
  shows "validCell M (setCellValue cell v)"
proof (cases "v < 1")
  case True
  then show ?thesis by (simp add: setCellValue_def validCell_iff)
next
  case False
  with assms have "1 \<le> nat v" "nat v \<le> M" "number v = number (int (nat v))" by simp_all
  with False show ?thesis unfolding setCellValue_def validCell_iff by auto
qed

lemma digitValue_range: "digitValue ch \<le> 9"
  by (auto simp: digitValue_def isDigit_def)

lemma writtenGridI:
  assumes "squareGrid N g" "\<And>a b. a < N \<Longrightarrow> b < N \<Longrightarrow> validCell (max N 9) (g ! a ! b)"
  shows "writtenGrid N g"
proof -
  from assms(1) have len: "length g = N" and rows: "\<forall>a<N. length (g ! a) = N"
    by (simp_all add: squareGrid_def list_all_length)
  with assms(2) have "list_all (list_all (validCell (max N 9))) g"
    by (simp add: list_all_length)
  with assms(1) show ?thesis by (simp add: writtenGrid_def)
qed

lemma writtenGrid_cell:
  assumes "writtenGrid N g" "a < N" "b < N"
  shows "validCell (max N 9) (g ! a ! b)"
proof -
  from assms(1) have sq: "squareGrid N g"
    and all: "list_all (list_all (validCell (max N 9))) g" by (simp_all add: writtenGrid_def)
  from sq assms(2,3) have "g ! a ! b \<in> set (concat g)" by (rule squareGrid_concat(3))
  with all show ?thesis by (auto simp: list_all_iff)
qed

lemma reachable_written:
  assumes "reachable N g"
  shows "writtenGrid N g"
  using assms
proof (induction rule: reachable.induct)
  case (generated w)
  have "\<not> (int N < 4 \<or> wholeSqrt (nat (int N)) = None)"
  proof
    assume "int N < 4 \<or> wholeSqrt (nat (int N)) = None"
    then have "generateGrid (int N) w = (False, w)" by (rule generateGrid_fails)
    with generated(2) show False by simp
  qed
  then obtain R where "4 \<le> int N" "wholeSqrt (nat (int N)) = Some R" by auto
  from generateGrid_succeeds(2) [OF generated(1) this]
  have "grid (snd (generateGrid (int N) w)) = replicate N (replicate N [])" by simp
  then show ?case
    by (simp add: writtenGrid_def squareGrid_def list_all_iff validCell_iff)
next
  case (reset g)
  then have "squareGrid N (resetGrid g)" by (simp add: writtenGrid_def resetGrid_square)
  moreover have "list_all (list_all (validCell (max N 9))) (resetGrid g)"
    by (simp add: resetGrid_def list_all_iff validCell_iff)
  ultimately show ?case by (simp add: writtenGrid_def)
next
  case (loaded g gridStr g')
  from loaded.IH have sq: "squareGrid N g" by (simp add: writtenGrid_def)
  have short: "length gridStr \<le> N * N"
  proof (rule ccontr)
    assume "\<not> length gridStr \<le> N * N"
    then have "N * N < length gridStr" by simp
    with sq have "stringGridToUIGrid gridStr g = Inl (RowOutOfRange N)" by (rule load_too_long)
    with loaded.hyps(2) show False by simp
  qed
  from load_square [OF sq short] loaded.hyps(2)
  have sq': "squareGrid N g'" and
    cells: "\<forall>a<N. \<forall>b<N. g' ! a ! b =
        (if a * N + b < length gridStr
         then setCellValue (g ! a ! b) (digitValue (gridStr ! (a * N + b)))
         else g ! a ! b)" by auto
  show ?case
  proof (rule writtenGridI [OF sq'])
    fix a b assume a: "a < N" and b: "b < N"
    show "validCell (max N 9) (g' ! a ! b)"
    proof (cases "a * N + b < length gridStr")
      case True
      with cells a b
      have "g' ! a ! b = setCellValue (g ! a ! b) (digitValue (gridStr ! (a * N + b)))" by simp
      moreover have "digitValue (gridStr ! (a * N + b)) \<le> int (max N 9)"
        using digitValue_range [of "gridStr ! (a * N + b)"] by simp
      ultimately show ?thesis by (simp add: setCellValue_valid)
    next
      case False
      with cells a b have "g' ! a ! b = g ! a ! b" by simp
      with writtenGrid_cell [OF loaded.IH a b] show ?thesis by simp
    qed
  qed
next
  case (solved g elapsed bench found bench' g')
  from solved.IH have sq: "squareGrid N g" by (simp add: writtenGrid_def)
  then have lenG: "length (UIGridToGrid g) = N"
    by (simp add: UIGridToGrid_map squareGrid_def)
  show ?case
  proof (cases "solve (UIGridToGrid g)")
    case None
    with solved.hyps(2) have "g' = g" by (simp add: solveGrid_def)
    with solved.IH show ?thesis by simp
  next
    case (Some G')
    with solved.hyps(2) have shown: "gridToUIGrid G' g = Inr g'"
      by (simp add: solveGrid_def split: sum.splits)
    from solve_completes(1) [OF Some] lenG have sqG: "squareGrid N G'" by simp
    from show_grid [OF sqG sq] shown
    have sq': "squareGrid N g'" and
      cells: "\<forall>a<N. \<forall>b<N. g' ! a ! b = setCellValue [] (G' ! a ! b)" by auto
    show ?thesis
    proof (rule writtenGridI [OF sq'])
      fix a b assume a: "a < N" and b: "b < N"
      from solve_completes(2) [OF Some, of a b] lenG a b
      have "G' ! a ! b \<le> int N" by simp
      moreover have "int N \<le> int (max N 9)" by simp
      ultimately have "G' ! a ! b \<le> int (max N 9)" by (rule order_trans)
      with cells a b show "validCell (max N 9) (g' ! a ! b)"
        by (simp add: setCellValue_valid)
    qed
  qed
qed

lemma validUIGrid_upTo:
  assumes "validUIGrid N g"
  shows "gridUpTo N (UIGridToGrid g)"
proof -
  from assms have N: "int N < 2 ^ 31" and sq: "squareGrid N g"
    by (simp_all add: validUIGrid_def)
  have "cellValue cell \<le> int N" if "cell \<in> set (concat g)" for cell
  proof -
    from assms that have "validCell N cell" by (rule validUIGrid_cell)
    from validCell_value [OF this N] show ?thesis by (cases "cell = []") auto
  qed
  then have "list_all (list_all (\<lambda>v. v \<le> int N)) (UIGridToGrid g)"
    by (auto simp: UIGridToGrid_map list_all_iff)
  with UIGridToGrid_square [OF sq] show ?thesis by (simp add: gridUpTo_def)
qed

lemma facade_keeps_givens:
  assumes v: "validUIGrid N g"
    and run: "solveGrid solve elapsed bench g = Inr (True, bench', g')"
    and r: "r < N" and c: "c < N" and given: "g ! r ! c \<noteq> []"
  shows "g' ! r ! c = g ! r ! c"
proof -
  from v have N: "int N < 2 ^ 31" and sq: "squareGrid N g" by (simp_all add: validUIGrid_def)
  from run obtain G' where s: "solve (UIGridToGrid g) = Some G'"
    and shown: "gridToUIGrid G' g = Inr g'"
    by (auto simp: solveGrid_def split: option.splits sum.splits)
  from sq have lenG: "length (UIGridToGrid g) = N"
    by (simp add: UIGridToGrid_map squareGrid_def)
  from solve_completes(1) [OF s] lenG have sqG: "squareGrid N G'" by simp
  from show_grid [OF sqG sq] shown r c
  have cell: "g' ! r ! c = setCellValue [] (G' ! r ! c)" by auto
  from sq r c have "g ! r ! c \<in> set (concat g)" by (rule squareGrid_concat(3))
  with v have "validCell N (g ! r ! c)" by (rule validUIGrid_cell)
  from validCell_value [OF this N] given
  have val: "1 \<le> cellValue (g ! r ! c)" "g ! r ! c = number (cellValue (g ! r ! c))" by simp_all
  from UIGridToGrid_nth [OF sq r c] val(1) have "1 \<le> UIGridToGrid g ! r ! c" by simp
  from givens_kept [OF validUIGrid_upTo [OF v] s r c this] UIGridToGrid_nth [OF sq r c]
  have "G' ! r ! c = cellValue (g ! r ! c)" by simp
  with cell val show ?thesis by (simp add: setCellValue_def)
qed

section \<open>Facts about the sample grids\<close>

lemma solve_puzzleUI4: "solve (UIGridToGrid puzzleUI4) = Some solved4"
  by code_simp

lemma show_solved4: "gridToUIGrid solved4 puzzleUI4 = Inr solvedUI4"
  by code_simp

lemma generated4: "reachable 4 (emptyUIGrid 4)"
proof -
  have inv: "grid newWindow \<noteq> [] \<longrightarrow> sudokuGridWidgets newWindow \<noteq> 0"
    by (simp add: newWindow_def)
  have ok: "fst (generateGrid (int 4) newWindow)" by code_simp
  have "grid (snd (generateGrid (int 4) newWindow)) = emptyUIGrid 4" by code_simp
  with reachable.generated [OF inv ok] show ?thesis by simp
qed

lemma reachable_loaded19: "reachable 4 loaded19"
proof -
  have "stringGridToUIGrid ''19..............'' (emptyUIGrid 4) = Inr loaded19" by code_simp
  with generated4 show ?thesis by (rule reachable.loaded)
qed

lemma reachable_puzzleUI4: "reachable 4 puzzleUI4"
proof -
  have "stringGridToUIGrid ''1.....3..4.....2'' (emptyUIGrid 4) = Inr puzzleUI4" by code_simp
  with generated4 show ?thesis by (rule reachable.loaded)
qed

lemma solve_puzzle4: "solve puzzle4 = Some solved4"
  by code_simp

lemma solve_full4: "solve (UIGridToGrid full4) = Some (UIGridToGrid full4)"
  by code_simp

lemma solve_clash4: "solve (UIGridToGrid clash4) = None"
  by code_simp

lemma show_full4: "gridToUIGrid (UIGridToGrid full4) full4 = Inr full4"
  by code_simp

section \<open>Claims about the string format\<close>

text \<open>
  Claim C1, as amended. For every valid grid \<open>g\<close> of any side \<open>N\<close> in which no cell holds a
  value above 9, loading the string that \<open>UIGridToStringGrid\<close> produces for \<open>g\<close> into
  any grid of the same side gives \<open>g\<close> back, and that string has \<open>N * N\<close> characters with
  a dot exactly at the empty cells. Every valid grid of side \<open>N \<le> 9\<close> is such a grid. In
  every valid grid an empty cell, and no other cell, is rendered as a dot.
\<close>

theorem roundtrip_values_at_most_9:
  assumes "validUIGrid N g" "squareGrid N g0"
  shows "((\<forall>cell \<in> set (concat g). cellValue cell \<le> 9) \<longrightarrow>
       stringGridToUIGrid (UIGridToStringGrid g) g0 = Inr g \<and>
       length (UIGridToStringGrid g) = N * N \<and>
       (\<forall>a<N. \<forall>b<N. (UIGridToStringGrid g ! (a * N + b) = CHR ''.'') = (g ! a ! b = []))) \<and>
    (N \<le> 9 \<longrightarrow> (\<forall>cell \<in> set (concat g). cellValue cell \<le> 9)) \<and>
    (\<forall>cell \<in> set (concat g). (cellString cell = ''.'') = (cell = []))"
proof -
  from assms have N: "N < 2 ^ 31" and sq: "squareGrid N g" by (simp_all add: validUIGrid_def)
  have dot: "(cellString cell = ''.'') = (cell = [])" if mem: "cell \<in> set (concat g)" for cell
  proof (cases "cell = []")
    case True
    then show ?thesis by (simp add: cellString_empty)
  next
    case False
    from assms(1) mem have "validCell N cell" by (rule validUIGrid_cell)
    with False obtain x where x: "1 \<le> x" "x \<le> N" "cell = number (int x)"
      by (auto simp: validCell_iff)
    with N have cs: "cellString cell = decimal x"
      by (simp add: cellString_valid) (simp add: number_def)
    have "list_all isDigit (decimal x)" by (rule decimal_digits)
    then have "decimal x \<noteq> ''.''" by (auto simp: isDigit_def)
    with cs False show ?thesis by simp
  qed
  have small: "stringGridToUIGrid (UIGridToStringGrid g) g0 = Inr g \<and>
       length (UIGridToStringGrid g) = N * N \<and>
       (\<forall>a<N. \<forall>b<N. (UIGridToStringGrid g ! (a * N + b) = CHR ''.'') = (g ! a ! b = []))"
    if small: "\<forall>cell \<in> set (concat g). cellValue cell \<le> 9"
  proof -
    have rt: "stringGridToUIGrid (UIGridToStringGrid g) g0 = Inr g"
      using assms small by (rule roundtrip_small)
    have len: "length (UIGridToStringGrid g) = N * N"
      using serialized_length(2) [OF assms(1)] small by simp
    have dots: "(UIGridToStringGrid g ! (a * N + b) = CHR ''.'') = (g ! a ! b = [])"
      if a: "a < N" and b: "b < N" for a b
    proof -
      from a b have k: "a * N + b < N * N" by (rule cell_index_bound)
      from a b have mem: "g ! a ! b \<in> set (concat g)" by (rule squareGrid_concat(3) [OF sq])
      with assms(1) have vc: "validCell N (g ! a ! b)" by (rule validUIGrid_cell)
      from small mem have sm: "cellValue (g ! a ! b) \<le> 9" by blast
      from k squareGrid_concat(1) [OF sq]
      have "UIGridToStringGrid g ! (a * N + b) = hd (cellString (concat g ! (a * N + b)))"
        by (simp add: serialized_small [OF assms(1) small])
      also from a b have "concat g ! (a * N + b) = g ! a ! b" by (rule squareGrid_concat(2) [OF sq])
      finally have ch: "UIGridToStringGrid g ! (a * N + b) = hd (cellString (g ! a ! b))" .
      from vc N sm have one: "cellString (g ! a ! b) = [hd (cellString (g ! a ! b))]"
        by (rule setCellValue_cellString(1))
      have "(hd (cellString (g ! a ! b)) = CHR ''.'') = (cellString (g ! a ! b) = ''.'')"
        using one by (metis list.inject)
      with ch dot [OF mem] show ?thesis by simp
    qed
    from rt len dots show ?thesis by blast
  qed
  have side: "\<forall>cell \<in> set (concat g). cellValue cell \<le> 9" if "N \<le> 9"
    using assms(1) that by (rule small_side)
  from small side dot show ?thesis by blast
qed

theorem roundtrip_values_at_most_9_witness:
  "validUIGrid 4 sample4 \<and> squareGrid 4 (emptyUIGrid 4) \<and> (4::nat) \<le> 9 \<and>
   list_all (\<lambda>cell. cellValue cell \<le> 9) (concat sample4) \<and>
   stringGridToUIGrid (UIGridToStringGrid sample4) (emptyUIGrid 4) = Inr sample4 \<and>
   length (UIGridToStringGrid sample4) = 4 * 4 \<and>
   (UIGridToStringGrid sample4 ! (0 * 4 + 1) = CHR ''.'') = (sample4 ! 0 ! 1 = []) \<and>
   validUIGrid 16 sample16c \<and> squareGrid 16 (emptyUIGrid 16) \<and>
   list_all (\<lambda>cell. cellValue cell \<le> 9) (concat sample16c) \<and>
   stringGridToUIGrid (UIGridToStringGrid sample16c) (emptyUIGrid 16) = Inr sample16c \<and>
   length (UIGridToStringGrid sample16c) = 16 * 16 \<and>
   ''9'' \<in> set (concat sample16c) \<and> (cellString ''9'' = ''.'') = (''9'' = [])"
proof -
  have n: "(4::nat) \<le> 9" by simp
  have v: "validUIGrid 4 sample4" and sq: "squareGrid 4 (emptyUIGrid 4)" by code_simp+
  have v': "validUIGrid 16 sample16c" and sq': "squareGrid 16 (emptyUIGrid 16)" by code_simp+
  have l': "list_all (\<lambda>cell. cellValue cell \<le> 9) (concat sample16c)" by code_simp
  then have small': "\<forall>cell \<in> set (concat sample16c). cellValue cell \<le> 9"
    by (simp only: list_all_iff)
  have mem: "''9'' \<in> set (concat sample16c)" by code_simp
  have i: "(0::nat) < 4" "(1::nat) < 4" by simp_all
  note a = roundtrip_values_at_most_9 [OF v sq]
  note b = roundtrip_values_at_most_9 [OF v' sq']
  from a n have small: "\<forall>cell \<in> set (concat sample4). cellValue cell \<le> 9" by blast
  then have l: "list_all (\<lambda>cell. cellValue cell \<le> 9) (concat sample4)"
    by (simp only: list_all_iff)
  from a small i
  have "stringGridToUIGrid (UIGridToStringGrid sample4) (emptyUIGrid 4) = Inr sample4"
    "length (UIGridToStringGrid sample4) = 4 * 4"
    "(UIGridToStringGrid sample4 ! (0 * 4 + 1) = CHR ''.'') = (sample4 ! 0 ! 1 = [])" by blast+
  moreover from b small' mem
  have "stringGridToUIGrid (UIGridToStringGrid sample16c) (emptyUIGrid 16) = Inr sample16c"
    "length (UIGridToStringGrid sample16c) = 16 * 16"
    "(cellString ''9'' = ''.'') = (''9'' = [])" by blast+
  ultimately show ?thesis using n v sq v' sq' l l' mem by blast
qed

text \<open>
  Claim C1 as stated fails on a valid 16 by 16 grid: the grid with the value 10 in its
  first cell serializes to 257 characters, and loading them leaves the grid's rows.
\<close>

theorem roundtrip_counterexample:
  "validUIGrid 16 sample16 \<and>
   stringGridToUIGrid (UIGridToStringGrid sample16) sample16 \<noteq> Inr sample16"
  by code_simp

text \<open>
  Claim C3, as amended. For every valid grid of any side \<open>N\<close>, the string is the
  concatenation of the cells' renderings: a dot for an empty cell, otherwise the decimal
  numeral of the value, one character for 1 to 9 and two for 10 to 99. The loader reads one
  character per cell and does no longest match. Serializing and loading again therefore
  gives the grid back exactly when no cell holds a value above 9; otherwise the string is
  longer than \<open>N * N\<close> and the load ends in the access \<open>grid.at(N)\<close>.
\<close>

theorem variable_width_format:
  assumes "validUIGrid N g" "squareGrid N g0"
  shows "UIGridToStringGrid g = concat (map cellString (concat g)) \<and>
    (\<forall>cell \<in> set (concat g).
       cellString cell = (if cell = [] then ''.'' else number (cellValue cell)) \<and>
       (length (cellString cell) = 1) = (cellValue cell \<le> 9) \<and>
       (10 \<le> cellValue cell \<and> cellValue cell \<le> 99 \<longrightarrow> length (cellString cell) = 2)) \<and>
    (\<forall>s. length s = N * N \<longrightarrow>
       (\<exists>g'. stringGridToUIGrid s g0 = Inr g' \<and>
          (\<forall>a<N. \<forall>b<N. g' ! a ! b = setCellValue (g0 ! a ! b) (digitValue (s ! (a * N + b)))))) \<and>
    (stringGridToUIGrid (UIGridToStringGrid g) g0 = Inr g)
       = (\<forall>cell \<in> set (concat g). cellValue cell \<le> 9) \<and>
    (\<not> (\<forall>cell \<in> set (concat g). cellValue cell \<le> 9) \<longrightarrow>
       stringGridToUIGrid (UIGridToStringGrid g) g0 = Inl (RowOutOfRange N))"
proof -
  from assms have N: "N < 2 ^ 31" by (simp add: validUIGrid_def)
  have cells: "cellString cell = (if cell = [] then ''.'' else number (cellValue cell)) \<and>
       (length (cellString cell) = 1) = (cellValue cell \<le> 9) \<and>
       (10 \<le> cellValue cell \<and> cellValue cell \<le> 99 \<longrightarrow> length (cellString cell) = 2)"
    if mem: "cell \<in> set (concat g)" for cell
  proof -
    from assms(1) mem have vc: "validCell N cell" by (rule validUIGrid_cell)
    have a: "cellString cell = (if cell = [] then ''.'' else number (cellValue cell))"
    proof (cases "cell = []")
      case True
      then show ?thesis by (simp add: cellString_empty)
    next
      case False
      with vc obtain x where x: "1 \<le> x" "x \<le> N" "cell = number (int x)"
        by (auto simp: validCell_iff)
      with N False show ?thesis by (simp add: cellString_valid cellValue_valid)
    qed
    have b: "(length (cellString cell) = 1) = (cellValue cell \<le> 9)"
      using vc N by (rule cellString_length_one)
    have c: "length (cellString cell) = 2" if "10 \<le> cellValue cell" "cellValue cell \<le> 99"
    proof -
      from that have "cell \<noteq> []" by (auto simp: cellValue_def)
      with a have "cellString cell = number (cellValue cell)" by simp
      with that show ?thesis by (simp add: number_two)
    qed
    from a b c show ?thesis by blast
  qed
  have load: "\<exists>g'. stringGridToUIGrid s g0 = Inr g' \<and>
          (\<forall>a<N. \<forall>b<N. g' ! a ! b = setCellValue (g0 ! a ! b) (digitValue (s ! (a * N + b))))"
    if len: "length s = N * N" for s
  proof -
    from load_square [OF assms(2), of s] len obtain g' where
      run: "stringGridToUIGrid s g0 = Inr g'" and
      c: "\<forall>a<N. \<forall>b<N. g' ! a ! b =
        (if a * N + b < length s then setCellValue (g0 ! a ! b) (digitValue (s ! (a * N + b)))
         else g0 ! a ! b)" by auto
    have "g' ! a ! b = setCellValue (g0 ! a ! b) (digitValue (s ! (a * N + b)))"
      if "a < N" "b < N" for a b
      using c that len cell_index_bound [OF that] by simp
    with run show ?thesis by blast
  qed
  have rt: "(stringGridToUIGrid (UIGridToStringGrid g) g0 = Inr g)
       = (\<forall>cell \<in> set (concat g). cellValue cell \<le> 9)"
  proof
    assume eq: "stringGridToUIGrid (UIGridToStringGrid g) g0 = Inr g"
    show "\<forall>cell \<in> set (concat g). cellValue cell \<le> 9"
    proof (rule ccontr)
      assume "\<not> (\<forall>cell \<in> set (concat g). cellValue cell \<le> 9)"
      with assms have "stringGridToUIGrid (UIGridToStringGrid g) g0 = Inl (RowOutOfRange N)"
        by (rule roundtrip_large)
      with eq show False by simp
    qed
  next
    assume "\<forall>cell \<in> set (concat g). cellValue cell \<le> 9"
    with assms show "stringGridToUIGrid (UIGridToStringGrid g) g0 = Inr g"
      by (rule roundtrip_small)
  qed
  from UIGridToStringGrid_concat [of g] cells load rt roundtrip_large [OF assms]
  show ?thesis by blast
qed

theorem variable_width_format_witness:
  "validUIGrid 16 sample16c \<and> validUIGrid 16 sample16 \<and> squareGrid 16 (emptyUIGrid 16) \<and>
   list_all (\<lambda>cell. cellValue cell \<le> 9) (concat sample16c) \<and>
   stringGridToUIGrid (UIGridToStringGrid sample16c) (emptyUIGrid 16) = Inr sample16c \<and>
   ''10'' \<in> set (concat sample16) \<and> cellValue ''10'' = 10 \<and> length (cellString ''10'') = 2 \<and>
   stringGridToUIGrid (UIGridToStringGrid sample16) (emptyUIGrid 16) = Inl (RowOutOfRange 16)"
proof -
  have v: "validUIGrid 16 sample16c" and v': "validUIGrid 16 sample16" by code_simp+
  have sq: "squareGrid 16 (emptyUIGrid 16)" by code_simp
  have small: "list_all (\<lambda>cell. cellValue cell \<le> 9) (concat sample16c)" by code_simp
  then have "\<forall>cell \<in> set (concat sample16c). cellValue cell \<le> 9"
    by (simp only: list_all_iff)
  with variable_width_format [OF v sq]
  have recovered: "stringGridToUIGrid (UIGridToStringGrid sample16c) (emptyUIGrid 16) = Inr sample16c"
    by blast
  have ten: "''10'' \<in> set (concat sample16)" "cellValue ''10'' = 10" by code_simp+
  from ten(2) have wide: "10 \<le> cellValue ''10'' \<and> cellValue ''10'' \<le> 99"
    and above: "\<not> cellValue ''10'' \<le> 9" by simp_all
  from ten(1) above have large: "\<not> (\<forall>cell \<in> set (concat sample16). cellValue cell \<le> 9)"
    by blast
  from variable_width_format [OF v' sq] ten(1) wide
  have two: "length (cellString ''10'') = 2" by blast
  from variable_width_format [OF v' sq] large
  have "stringGridToUIGrid (UIGridToStringGrid sample16) (emptyUIGrid 16) = Inl (RowOutOfRange 16)"
    by blast
  with v v' sq small recovered ten two show ?thesis by blast
qed

text \<open>
  Claim C3 as stated fails: a 16 by 16 grid whose last cell holds 16 is not recovered by
  loading its own serialization into an empty 16 by 16 grid.
\<close>

theorem variable_width_counterexample:
  "validUIGrid 16 sample16b \<and>
   stringGridToUIGrid (UIGridToStringGrid sample16b) (emptyUIGrid 16) \<noteq> Inr sample16b"
  by code_simp

text \<open>
  Claim C9. Loading a string into an \<open>N\<close> by \<open>N\<close> grid: a string longer than \<open>N * N\<close>
  ends in the access \<open>grid.at(N)\<close>, a row index outside the grid; a string of at most
  \<open>N * N\<close> characters is loaded without any error, and the cells from position
  \<open>length s\<close> on keep the text they had.
\<close>

theorem loader_range:
  assumes "squareGrid N g"
  shows "(N * N < length s \<longrightarrow> stringGridToUIGrid s g = Inl (RowOutOfRange N)) \<and>
    (length s \<le> N * N \<longrightarrow>
       (\<exists>g'. stringGridToUIGrid s g = Inr g' \<and>
          (\<forall>a<N. \<forall>b<N. length s \<le> a * N + b \<longrightarrow> g' ! a ! b = g ! a ! b)))"
proof (intro conjI impI)
  assume "N * N < length s"
  with assms show "stringGridToUIGrid s g = Inl (RowOutOfRange N)" by (rule load_too_long)
next
  assume "length s \<le> N * N"
  from load_square [OF assms this] obtain g' where
    run: "stringGridToUIGrid s g = Inr g'" and
    c: "\<forall>a<N. \<forall>b<N. g' ! a ! b =
        (if a * N + b < length s then setCellValue (g ! a ! b) (digitValue (s ! (a * N + b)))
         else g ! a ! b)" by auto
  have "\<forall>a<N. \<forall>b<N. length s \<le> a * N + b \<longrightarrow> g' ! a ! b = g ! a ! b"
    using c by auto
  with run show "\<exists>g'. stringGridToUIGrid s g = Inr g' \<and>
          (\<forall>a<N. \<forall>b<N. length s \<le> a * N + b \<longrightarrow> g' ! a ! b = g ! a ! b)" by blast
qed

theorem loader_range_witness:
  "squareGrid 4 sample4 \<and>
   stringGridToUIGrid ''1234123412341234.'' sample4 = Inl (RowOutOfRange 4) \<and>
   (\<exists>g'. stringGridToUIGrid ''43'' sample4 = Inr g' \<and>
      (\<forall>a<4. \<forall>b<4. length ''43'' \<le> a * 4 + b \<longrightarrow> g' ! a ! b = sample4 ! a ! b))"
proof -
  have sq: "squareGrid 4 sample4" by code_simp
  have long: "4 * 4 < length ''1234123412341234.''" by simp
  have short: "length ''43'' \<le> 4 * 4" by simp
  from loader_range [OF sq, of "''1234123412341234.''"] long
  have "stringGridToUIGrid ''1234123412341234.'' sample4 = Inl (RowOutOfRange 4)" by blast
  moreover from loader_range [OF sq, of "''43''"] short
  have "\<exists>g'. stringGridToUIGrid ''43'' sample4 = Inr g' \<and>
      (\<forall>a<4. \<forall>b<4. length ''43'' \<le> a * 4 + b \<longrightarrow> g' ! a ! b = sample4 ! a ! b)" by blast
  ultimately show ?thesis using sq by blast
qed

section \<open>Claims about the primitive grid and the solve facade\<close>

text \<open>
  Claim C5. With \<open>solve\<close>, the solver as the specification describes it: for every grid
  \<open>G\<close> of side \<open>N\<close> with cell values in \<open>0..N\<close> on which it returns a solution \<open>G'\<close>, every
  cell of \<open>G\<close> that is not \<open>0\<close> has the same value in \<open>G'\<close>; and for every valid window grid
  on which \<open>solveGrid\<close> reports a solution, every cell that was filled before the call
  shows the same text after it.
\<close>

theorem solve_keeps_givens:
  "(validGrid N G \<and> solve G = Some G' \<longrightarrow>
      (\<forall>r<N. \<forall>c<N. G ! r ! c \<noteq> 0 \<longrightarrow> G' ! r ! c = G ! r ! c)) \<and>
   (validUIGrid N g \<and> solveGrid solve elapsed bench g = Inr (True, bench', g') \<longrightarrow>
      (\<forall>r<N. \<forall>c<N. g ! r ! c \<noteq> [] \<longrightarrow> g' ! r ! c = g ! r ! c))"
proof (intro conjI impI allI)
  fix r c
  assume a: "validGrid N G \<and> solve G = Some G'" and r: "r < N" and c: "c < N"
    and given: "G ! r ! c \<noteq> 0"
  from a have v: "validGrid N G" and s: "solve G = Some G'" by simp_all
  from validGrid_cell [OF v r c] given have "1 \<le> G ! r ! c" by simp
  with validGrid_upTo [OF v] s r c show "G' ! r ! c = G ! r ! c" by (rule givens_kept)
next
  fix r c
  assume a: "validUIGrid N g \<and> solveGrid solve elapsed bench g = Inr (True, bench', g')"
    and r: "r < N" and c: "c < N" and given: "g ! r ! c \<noteq> []"
  from a have v: "validUIGrid N g"
    and run: "solveGrid solve elapsed bench g = Inr (True, bench', g')" by simp_all
  from v run r c given show "g' ! r ! c = g ! r ! c" by (rule facade_keeps_givens)
qed

theorem solve_keeps_givens_witness:
  "validGrid 4 puzzle4 \<and> solve puzzle4 = Some solved4 \<and>
   puzzle4 ! 1 ! 2 \<noteq> 0 \<and> solved4 ! 1 ! 2 = puzzle4 ! 1 ! 2 \<and>
   validUIGrid 4 puzzleUI4 \<and> solveGrid solve 5 0 puzzleUI4 = Inr (True, 5, solvedUI4) \<and>
   puzzleUI4 ! 1 ! 2 \<noteq> [] \<and> solvedUI4 ! 1 ! 2 = puzzleUI4 ! 1 ! 2"
proof -
  have v: "validGrid 4 puzzle4" by code_simp
  have given: "puzzle4 ! 1 ! 2 \<noteq> 0" by code_simp
  have v': "validUIGrid 4 puzzleUI4" by code_simp
  have given': "puzzleUI4 ! 1 ! 2 \<noteq> []" by code_simp
  have run: "solveGrid solve 5 0 puzzleUI4 = Inr (True, 5, solvedUI4)"
    by (simp add: solveGrid_def solve_puzzleUI4 show_solved4)
  have i: "(1::nat) < 4" "(2::nat) < 4" by simp_all
  from solve_keeps_givens [of 4 puzzle4 solved4 puzzleUI4 5 0 5 solvedUI4]
    v solve_puzzle4 given v' run given' i
  have "solved4 ! 1 ! 2 = puzzle4 ! 1 ! 2" "solvedUI4 ! 1 ! 2 = puzzleUI4 ! 1 ! 2" by blast+
  with v solve_puzzle4 given v' run given' show ?thesis by blast
qed

text \<open>
  Claim C7, as amended. For every window grid of side \<open>N\<close> that the program reaches, the
  primitive grid that \<open>UIGridToGrid\<close> passes to the solver has side \<open>N\<close>, and each of its
  values is \<open>-1\<close> or lies between \<open>1\<close> and the larger of \<open>N\<close> and \<open>9\<close>; the value is \<open>-1\<close>
  exactly when the cell is empty, and \<open>0\<close> does not occur. Every grid that \<open>solve\<close>
  produces for it has side \<open>N\<close> and all its values between \<open>1\<close> and \<open>N\<close>, and showing it
  with \<open>gridToUIGrid\<close> and reading it again with \<open>UIGridToGrid\<close> gives the same grid. On
  the way to the window \<open>setCellValue\<close> writes every value below \<open>1\<close> as an empty cell.
\<close>

theorem primitive_grid_domain:
  assumes "reachable N g" "int N < 2 ^ 31"
  shows "squareGrid N (UIGridToGrid g) \<and>
    (\<forall>r<N. \<forall>c<N.
       (UIGridToGrid g ! r ! c = - 1 \<or>
        (1 \<le> UIGridToGrid g ! r ! c \<and> UIGridToGrid g ! r ! c \<le> int (max N 9))) \<and>
       (UIGridToGrid g ! r ! c = - 1) = (g ! r ! c = [])) \<and>
    (\<forall>G'. solve (UIGridToGrid g) = Some G' \<longrightarrow>
       squareGrid N G' \<and> (\<forall>r<N. \<forall>c<N. 1 \<le> G' ! r ! c \<and> G' ! r ! c \<le> int N) \<and>
       (\<exists>g'. gridToUIGrid G' g = Inr g' \<and> UIGridToGrid g' = G')) \<and>
    (\<forall>cell v. v < 1 \<longrightarrow> setCellValue cell v = [])"
proof -
  from assms(1) have w: "writtenGrid N g" by (rule reachable_written)
  then have sq: "squareGrid N g" by (simp add: writtenGrid_def)
  from assms(2) have M: "int (max N 9) < 2 ^ 31" by simp
  have sqG: "squareGrid N (UIGridToGrid g)" using sq by (rule UIGridToGrid_square)
  have cells: "(UIGridToGrid g ! r ! c = - 1 \<or>
        (1 \<le> UIGridToGrid g ! r ! c \<and> UIGridToGrid g ! r ! c \<le> int (max N 9))) \<and>
       (UIGridToGrid g ! r ! c = - 1) = (g ! r ! c = [])" if r: "r < N" and c: "c < N" for r c
  proof -
    from validCell_value [OF writtenGrid_cell [OF w r c] M] UIGridToGrid_nth [OF sq r c]
    show ?thesis by (cases "g ! r ! c = []") auto
  qed
  have solver: "squareGrid N G' \<and> (\<forall>r<N. \<forall>c<N. 1 \<le> G' ! r ! c \<and> G' ! r ! c \<le> int N) \<and>
       (\<exists>g'. gridToUIGrid G' g = Inr g' \<and> UIGridToGrid g' = G')"
    if s: "solve (UIGridToGrid g) = Some G'" for G'
  proof -
    from sqG have lenG: "length (UIGridToGrid g) = N" by (simp add: squareGrid_def)
    from solve_completes(1) [OF s] lenG have sq': "squareGrid N G'" by simp
    have range: "1 \<le> G' ! r ! c \<and> G' ! r ! c \<le> int N" if "r < N" "c < N" for r c
      using solve_completes(2) [OF s, of r c] lenG that by simp
    from show_grid [OF sq' sq] obtain g' where
      shown: "gridToUIGrid G' g = Inr g'" and sqg': "squareGrid N g'" and
      written: "\<forall>a<N. \<forall>b<N. g' ! a ! b = setCellValue [] (G' ! a ! b)" by blast
    have "UIGridToGrid g' = G'"
    proof (rule squareGrid_eqI [OF UIGridToGrid_square [OF sqg'] sq'])
      fix a b assume a: "a < N" and b: "b < N"
      from range [OF a b] assms(2) have "1 \<le> G' ! a ! b" "G' ! a ! b < 2 ^ 31" by simp_all
      then have "cellValue (setCellValue [] (G' ! a ! b)) = G' ! a ! b"
        by (rule cellValue_setCellValue)
      with written a b UIGridToGrid_nth [OF sqg' a b]
      show "UIGridToGrid g' ! a ! b = G' ! a ! b" by simp
    qed
    with sq' range shown show ?thesis by blast
  qed
  have "\<forall>cell v. v < 1 \<longrightarrow> setCellValue cell v = []" by (simp add: setCellValue_def)
  with sqG cells solver show ?thesis by blast
qed

theorem primitive_grid_domain_witness:
  "reachable 4 loaded19 \<and> reachable 4 puzzleUI4 \<and> int 4 < 2 ^ 31 \<and>
   UIGridToGrid loaded19 ! 0 ! 1 = 9 \<and> UIGridToGrid loaded19 ! 0 ! 1 \<le> int (max 4 9) \<and>
   loaded19 ! 0 ! 2 = [] \<and> UIGridToGrid loaded19 ! 0 ! 2 = - 1 \<and>
   solve (UIGridToGrid puzzleUI4) = Some solved4 \<and> squareGrid 4 solved4 \<and>
   1 \<le> solved4 ! 3 ! 3 \<and> solved4 ! 3 ! 3 \<le> int 4 \<and>
   (\<exists>g'. gridToUIGrid solved4 puzzleUI4 = Inr g' \<and> UIGridToGrid g' = solved4) \<and>
   setCellValue ''7'' 0 = []"
proof -
  have N: "int 4 < 2 ^ 31" by simp
  have i: "(0::nat) < 4" "(1::nat) < 4" "(2::nat) < 4" "(3::nat) < 4" "(0::int) < 1" by simp_all
  have nine: "UIGridToGrid loaded19 ! 0 ! 1 = 9" and e: "loaded19 ! 0 ! 2 = []" by code_simp+
  note a = primitive_grid_domain [OF reachable_loaded19 N]
  note b = primitive_grid_domain [OF reachable_puzzleUI4 N]
  from a i nine have "UIGridToGrid loaded19 ! 0 ! 1 \<le> int (max 4 9)" by simp
  moreover from a i e have "UIGridToGrid loaded19 ! 0 ! 2 = - 1" by blast
  moreover from a i have "setCellValue ''7'' 0 = []" by blast
  moreover from b solve_puzzleUI4 i
  have "squareGrid 4 solved4" "1 \<le> solved4 ! 3 ! 3 \<and> solved4 ! 3 ! 3 \<le> int 4"
    "\<exists>g'. gridToUIGrid solved4 puzzleUI4 = Inr g' \<and> UIGridToGrid g' = solved4" by blast+
  ultimately show ?thesis
    using reachable_loaded19 reachable_puzzleUI4 N nine e solve_puzzleUI4 by blast
qed

text \<open>
  Claim C7 as stated fails in both of its bounds. After the string \<open>19..............\<close> is
  loaded into the empty 4 by 4 grid, the primitive grid holds \<open>-1\<close> for the empty third
  cell, which is below \<open>0\<close>, and \<open>9\<close> for the second cell, which is above \<open>N = 4\<close>.
\<close>

theorem primitive_grid_counterexample:
  "stringGridToUIGrid ''19..............'' (emptyUIGrid 4) = Inr loaded19 \<and>
   UIGridToGrid loaded19 ! 0 ! 2 = - 1 \<and> \<not> (0 \<le> UIGridToGrid loaded19 ! 0 ! 2) \<and>
   UIGridToGrid loaded19 ! 0 ! 1 = 9 \<and> \<not> (UIGridToGrid loaded19 ! 0 ! 1 \<le> 4)"
  by code_simp

text \<open>
  Claim C8, as amended. \<open>solveGrid\<close> returns whether the solver found a solution; the
  measured time is stored in the caller's variable only in that case, and after an
  unsolvable grid the variable still holds what it held before the call.
\<close>

theorem elapsed_only_when_solved:
  assumes "solveGrid dlx elapsed bench g = Inr (solved, bench', g')"
  shows "solved = (dlx (UIGridToGrid g) \<noteq> None) \<and> bench' = (if solved then elapsed else bench)"
  using assms by (auto simp: solveGrid_def split: option.splits sum.splits)

theorem elapsed_only_when_solved_witness:
  "solveGrid solve 5 0 full4 = Inr (True, 5, full4) \<and>
   True = (solve (UIGridToGrid full4) \<noteq> None) \<and> (5::real) = (if True then 5 else 0) \<and>
   solveGrid solve 5 0 clash4 = Inr (False, 0, clash4) \<and>
   False = (solve (UIGridToGrid clash4) \<noteq> None) \<and> (0::real) = (if False then 5 else 0)"
proof -
  have run: "solveGrid solve 5 0 full4 = Inr (True, 5, full4)"
    by (simp add: solveGrid_def solve_full4 show_full4)
  have run': "solveGrid solve 5 0 clash4 = Inr (False, 0, clash4)"
    by (simp add: solveGrid_def solve_clash4)
  from elapsed_only_when_solved [OF run] elapsed_only_when_solved [OF run'] run run'
  show ?thesis by blast
qed

text \<open>
  Claim C8 as stated fails: on a grid with two ones in its first row the solver finds
  nothing, and the caller's variable, \<open>0\<close> before the call, is still \<open>0\<close> although \<open>5\<close>
  milliseconds were measured.
\<close>

theorem elapsed_counterexample:
  "solveGrid solve 5 0 clash4 = Inr (False, 0, clash4)"
  by (simp add: solveGrid_def solve_clash4)

text \<open>
  Claim C10. When the solver finds no solution, \<open>solveGrid\<close> leaves the window's grid and
  the caller's time variable as they were; whenever the grid differs after the call, the
  solver has found a solution and the grid shows it.
\<close>

theorem unsolvable_changes_nothing:
  "(dlx (UIGridToGrid g) = None \<longrightarrow> solveGrid dlx elapsed bench g = Inr (False, bench, g)) \<and>
   (\<forall>solved bench' g'. solveGrid dlx elapsed bench g = Inr (solved, bench', g') \<and> g' \<noteq> g \<longrightarrow>
      solved \<and> (\<exists>solution. dlx (UIGridToGrid g) = Some solution \<and> gridToUIGrid solution g = Inr g'))"
  by (auto simp: solveGrid_def split: option.splits sum.splits)

theorem unsolvable_changes_nothing_witness:
  "solve (UIGridToGrid clash4) = None \<and> solveGrid solve 5 3 clash4 = Inr (False, 3, clash4) \<and>
   solveGrid onesSolver 5 3 (emptyUIGrid 4) = Inr (True, 5, replicate 4 (replicate 4 ''1'')) \<and>
   replicate 4 (replicate 4 ''1'') \<noteq> emptyUIGrid 4 \<and>
   (\<exists>solution. onesSolver (UIGridToGrid (emptyUIGrid 4)) = Some solution \<and>
      gridToUIGrid solution (emptyUIGrid 4) = Inr (replicate 4 (replicate 4 ''1'')))"
proof -
  from unsolvable_changes_nothing [of solve clash4 5 3] solve_clash4
  have kept: "solveGrid solve 5 3 clash4 = Inr (False, 3, clash4)" by blast
  have run: "solveGrid onesSolver 5 3 (emptyUIGrid 4) = Inr (True, 5, replicate 4 (replicate 4 ''1''))"
    by code_simp
  have changed: "replicate 4 (replicate 4 ''1'') \<noteq> emptyUIGrid 4" by code_simp
  from unsolvable_changes_nothing [of onesSolver "emptyUIGrid 4" 5 3] run changed
  have "\<exists>solution. onesSolver (UIGridToGrid (emptyUIGrid 4)) = Some solution \<and>
      gridToUIGrid solution (emptyUIGrid 4) = Inr (replicate 4 (replicate 4 ''1''))" by blast
  with solve_clash4 kept run changed show ?thesis by blast
qed

section \<open>Claims about the test harness\<close>

text \<open>
  Claim C4, as amended. For every test whose expected string is \<open>any\<close> and on which the
  solver finds a solution, \<open>runTest\<close> reports the test as passed and leaves \<open>allPassed\<close> as
  it was; the grid the solver returned is shown and not checked.
\<close>

theorem any_passes_unchecked:
  assumes "stringGridToUIGrid input g = Inr g1" "dlx (UIGridToGrid g1) = Some solution"
    "gridToUIGrid solution g1 = Inr g2"
  shows "runTest dlx elapsed (title, input, ''any'') (g, benchSum, allPassed)
     = Inr (Passed, g2, benchSum + elapsed, allPassed)"
  using assms by (simp add: runTest_def solveGrid_def)

theorem any_passes_unchecked_witness:
  "stringGridToUIGrid ''1234341221434321'' (emptyUIGrid 4) = Inr full4 \<and>
   solve (UIGridToGrid full4) = Some (UIGridToGrid full4) \<and>
   gridToUIGrid (UIGridToGrid full4) full4 = Inr full4 \<and>
   runTest solve 5 (''Completed'', ''1234341221434321'', ''any'') (emptyUIGrid 4, 0, True)
     = Inr (Passed, full4, 0 + 5, True)"
proof -
  have load: "stringGridToUIGrid ''1234341221434321'' (emptyUIGrid 4) = Inr full4" by code_simp
  from any_passes_unchecked [of "''1234341221434321''" "emptyUIGrid 4" full4 solve
      "UIGridToGrid full4" full4 5 "''Completed''" 0 True, OF load solve_full4 show_full4]
    load solve_full4 show_full4
  show ?thesis by blast
qed

text \<open>
  Claim C4 as stated fails: with a solver that answers the empty 4 by 4 puzzle with the
  grid of ones, the test expecting \<open>any\<close> is reported as passed, although the first row of
  the grid shown repeats the value one.
\<close>

theorem any_counterexample:
  "runTest onesSolver 5 (''Empty'', ''................'', ''any'') (emptyUIGrid 4, 0, True)
     = Inr (Passed, replicate 4 (replicate 4 ''1''), 5, True) \<and>
   \<not> distinct (UIGridToGrid (replicate 4 (replicate 4 ''1'')) ! 0)"
  by code_simp

section \<open>Claims about creating the grid and importing\<close>

text \<open>
  Claim C6. In a window whose grid is empty or whose widget list is not,
  \<open>generateGrid\<close> returns false exactly when the size is below 4 or is not the square of a
  whole number, and then leaves the window as it was; for every other size it returns
  true and the window's grid is the grid of that side with every cell empty.
\<close>

theorem generateGrid_sizes:
  assumes "grid w \<noteq> [] \<longrightarrow> sudokuGridWidgets w \<noteq> 0"
  shows "(\<not> fst (generateGrid sz w)) = (sz < 4 \<or> \<not> (\<exists>R::int. R * R = sz)) \<and>
    (\<not> fst (generateGrid sz w) \<longrightarrow> snd (generateGrid sz w) = w) \<and>
    (fst (generateGrid sz w) \<longrightarrow>
       grid (snd (generateGrid sz w)) = replicate (nat sz) (replicate (nat sz) []) \<and>
       sudokuGridWidgets (snd (generateGrid sz w)) \<noteq> 0)"
proof (cases "sz < 4 \<or> wholeSqrt (nat sz) = None")
  case True
  then have "generateGrid sz w = (False, w)" by (rule generateGrid_fails)
  moreover from True have "sz < 4 \<or> \<not> (\<exists>R::int. R * R = sz)"
    using int_square_iff [of sz] wholeSqrt_None [of "nat sz"] by auto
  ultimately show ?thesis by simp
next
  case False
  then have sz: "4 \<le> sz" and "wholeSqrt (nat sz) \<noteq> None" by auto
  then obtain R where R: "wholeSqrt (nat sz) = Some R" by blast
  from sz R have "\<not> (sz < 4 \<or> \<not> (\<exists>R::int. R * R = sz))"
    using int_square_iff [of sz] wholeSqrt_None [of "nat sz"] by auto
  with generateGrid_succeeds [OF assms sz R] show ?thesis by simp
qed

theorem generateGrid_sizes_witness:
  "grid newWindow = [] \<and> fst (generateGrid 4 newWindow) \<and>
   grid (snd (generateGrid 4 newWindow)) = replicate (nat 4) (replicate (nat 4) []) \<and>
   \<not> fst (generateGrid 5 newWindow) \<and> snd (generateGrid 5 newWindow) = newWindow"
proof -
  have e: "grid newWindow = []" by (simp add: newWindow_def)
  then have inv: "grid newWindow \<noteq> [] \<longrightarrow> sudokuGridWidgets newWindow \<noteq> 0" by simp
  have "(2::int) * 2 = 4" by simp
  then have four: "\<not> ((4::int) < 4 \<or> \<not> (\<exists>R::int. R * R = 4))" by blast
  have "(5::int) < 4 \<or> \<not> (\<exists>R::int. R * R = 5)"
  proof -
    have "wholeSqrt (nat 5) = None" by code_simp
    with wholeSqrt_None [of "nat 5"] have "\<not> (\<exists>k::nat. k * k = nat 5)" by blast
    moreover have "(0::int) \<le> 5" by simp
    ultimately show ?thesis using int_square_iff [of 5] by blast
  qed
  with generateGrid_sizes [OF inv, of 5]
  have five: "\<not> fst (generateGrid 5 newWindow)" "snd (generateGrid 5 newWindow) = newWindow"
    by blast+
  from generateGrid_sizes [OF inv, of 4] four
  have "fst (generateGrid 4 newWindow)"
    "grid (snd (generateGrid 4 newWindow)) = replicate (nat 4) (replicate (nat 4) [])"
    by blast+
  with e five show ?thesis by blast
qed

text \<open>
  Claim C2, as amended. The loader has no error for characters: every character is
  written to its cell through \<open>digitValue\<close>, so anything that is no digit from 1 to 9
  clears the cell and a digit above \<open>N\<close> is stored as it is. The import reports an error
  and loads nothing exactly in two cases: the dialog was cancelled or the text is empty
  (``Failed to import''), or the length of the text is neither \<open>N * N\<close> nor the square of
  a side that \<open>generateGrid\<close> accepts (``Invalid grid size''). A text whose length is
  the square of another accepted side is loaded into a newly generated grid of that side.
\<close>

theorem import_outcomes:
  assumes inv: "grid w \<noteq> [] \<longrightarrow> sudokuGridWidgets w \<noteq> 0" and sq: "squareGrid N (grid w)"
  shows
    "(\<not> ok \<or> text = [] \<longrightarrow>
        on_pushButtonImport_clicked ok text w = Inr (w\<lparr>statusBar := ''Failed to import! Wrong data.''\<rparr>)) \<and>
     (ok \<and> text \<noteq> [] \<and>
        (length text = N * N \<or> (\<exists>M R. M * M = length text \<and> 4 \<le> M \<and> R * R = M)) \<longrightarrow>
        (\<exists>w' M. on_pushButtonImport_clicked ok text w = Inr w' \<and> statusBar w' = ''Imported!'' \<and>
           M * M = length text \<and> squareGrid M (grid w') \<and>
           (\<forall>a<M. \<forall>b<M. grid w' ! a ! b = setCellValue [] (digitValue (text ! (a * M + b)))))) \<and>
     (ok \<and> text \<noteq> [] \<and>
        \<not> (length text = N * N \<or> (\<exists>M R. M * M = length text \<and> 4 \<le> M \<and> R * R = M)) \<longrightarrow>
        on_pushButtonImport_clicked ok text w =
          Inr (w\<lparr>statusBar := ''Invalid grid size! Only NxN grids supported.''\<rparr>))"
proof (intro conjI impI)
  assume "\<not> ok \<or> text = []"
  then show "on_pushButtonImport_clicked ok text w = Inr (w\<lparr>statusBar := ''Failed to import! Wrong data.''\<rparr>)"
    by (auto simp: on_pushButtonImport_clicked_def)
next
  from sq have lenN: "length (grid w) = N" by (simp add: squareGrid_def)
  assume a: "ok \<and> text \<noteq> [] \<and>
        (length text = N * N \<or> (\<exists>M R. M * M = length text \<and> 4 \<le> M \<and> R * R = M))"
  show "\<exists>w' M. on_pushButtonImport_clicked ok text w = Inr w' \<and> statusBar w' = ''Imported!'' \<and>
           M * M = length text \<and> squareGrid M (grid w') \<and>
           (\<forall>a<M. \<forall>b<M. grid w' ! a ! b = setCellValue [] (digitValue (text ! (a * M + b))))"
  proof (cases "length text = N * N")
    case True
    from import_loads [OF sq True] obtain g' where
      g': "stringGridToUIGrid text (grid w) = Inr g'" "squareGrid N g'"
        "\<forall>a<N. \<forall>b<N. g' ! a ! b = setCellValue [] (digitValue (text ! (a * N + b)))" by blast
    with a True lenN
    have "on_pushButtonImport_clicked ok text w = Inr (w\<lparr>grid := g', statusBar := ''Imported!''\<rparr>)"
      by (simp add: on_pushButtonImport_clicked_def)
    with g' True show ?thesis by fastforce
  next
    case False
    with a obtain M R where M: "M * M = length text" "4 \<le> M" "R * R = M" by blast
    from M(1) have root: "wholeSqrt (length text) = Some M"
      using wholeSqrt_square [of M] by simp
    from M(3) have rootM: "wholeSqrt (nat (int M)) = Some R"
      using wholeSqrt_square [of R] by simp
    from M(2) have four: "4 \<le> int M" by simp
    let ?w1 = "snd (generateGrid (int M) w)"
    from generateGrid_succeeds [OF inv four rootM]
    have gen: "fst (generateGrid (int M) w)" and g1: "grid ?w1 = replicate M (replicate M [])"
      by simp_all
    from g1 have sq1: "squareGrid M (grid ?w1)" by (simp add: squareGrid_def list_all_iff)
    from import_loads [OF sq1 M(1) [symmetric]] obtain g' where
      g': "stringGridToUIGrid text (grid ?w1) = Inr g'" "squareGrid M g'"
        "\<forall>a<M. \<forall>b<M. g' ! a ! b = setCellValue [] (digitValue (text ! (a * M + b)))" by blast
    from a False lenN root gen g'(1)
    have "on_pushButtonImport_clicked ok text w = Inr (?w1\<lparr>grid := g', statusBar := ''Imported!''\<rparr>)"
      by (simp add: on_pushButtonImport_clicked_def case_prod_beta)
    with g' M(1) show ?thesis by fastforce
  qed
next
  from sq have lenN: "length (grid w) = N" by (simp add: squareGrid_def)
  assume a: "ok \<and> text \<noteq> [] \<and>
        \<not> (length text = N * N \<or> (\<exists>M R. M * M = length text \<and> 4 \<le> M \<and> R * R = M))"
  then have ne: "length text \<noteq> N * N"
    and none: "\<not> (\<exists>M R. M * M = length text \<and> 4 \<le> M \<and> R * R = M)" by blast+
  have "(case wholeSqrt (length text) of Some side \<Rightarrow> generateGrid (int side) w | None \<Rightarrow> (False, w))
      = (False, w)"
  proof (cases "wholeSqrt (length text)")
    case None
    then show ?thesis by simp
  next
    case (Some M)
    then have M: "M * M = length text" by (rule wholeSqrt_Some)
    with none have "\<not> 4 \<le> M \<or> \<not> (\<exists>R. R * R = M)" by blast
    then have "int M < 4 \<or> wholeSqrt (nat (int M)) = None"
      using wholeSqrt_None [of M] by auto
    then have "generateGrid (int M) w = (False, w)" by (rule generateGrid_fails)
    with Some show ?thesis by simp
  qed
  with a ne lenN
  show "on_pushButtonImport_clicked ok text w =
          Inr (w\<lparr>statusBar := ''Invalid grid size! Only NxN grids supported.''\<rparr>)"
    by (simp add: on_pushButtonImport_clicked_def)
qed

theorem import_outcomes_witness:
  "squareGrid 4 (grid window4) \<and> sudokuGridWidgets window4 \<noteq> 0 \<and>
   (\<exists>w' M. on_pushButtonImport_clicked True ''x9..............'' window4 = Inr w' \<and>
      statusBar w' = ''Imported!'' \<and> M * M = length ''x9..............'' \<and>
      squareGrid M (grid w') \<and>
      (\<forall>a<M. \<forall>b<M. grid w' ! a ! b
         = setCellValue [] (digitValue (''x9..............'' ! (a * M + b))))) \<and>
   on_pushButtonImport_clicked True ''123'' window4
     = Inr (window4\<lparr>statusBar := ''Invalid grid size! Only NxN grids supported.''\<rparr>) \<and>
   on_pushButtonImport_clicked False ''123'' window4
     = Inr (window4\<lparr>statusBar := ''Failed to import! Wrong data.''\<rparr>)"
proof -
  have sq: "squareGrid 4 (grid window4)" by code_simp
  have wd: "sudokuGridWidgets window4 \<noteq> 0" by code_simp
  then have inv: "grid window4 \<noteq> [] \<longrightarrow> sudokuGridWidgets window4 \<noteq> 0" by simp
  have fits: "True \<and> ''x9..............'' \<noteq> [] \<and>
      (length ''x9..............'' = 4 * 4 \<or>
       (\<exists>M R. M * M = length ''x9..............'' \<and> 4 \<le> M \<and> R * R = M))" by simp
  have "wholeSqrt 3 = None" by code_simp
  with wholeSqrt_None [of 3] have "\<not> (\<exists>M::nat. M * M = 3)" by blast
  moreover have "length ''123'' = 3" "(3::nat) \<noteq> 4 * 4" "''123'' \<noteq> []" by simp_all
  ultimately have misfit: "True \<and> ''123'' \<noteq> [] \<and>
      \<not> (length ''123'' = 4 * 4 \<or> (\<exists>M R. M * M = length ''123'' \<and> 4 \<le> M \<and> R * R = M))"
    by metis
  have cancelled: "\<not> False \<or> ''123'' = []" by simp
  from import_outcomes [OF inv sq, of True "''x9..............''"] fits
  have one: "\<exists>w' M. on_pushButtonImport_clicked True ''x9..............'' window4 = Inr w' \<and>
      statusBar w' = ''Imported!'' \<and> M * M = length ''x9..............'' \<and>
      squareGrid M (grid w') \<and>
      (\<forall>a<M. \<forall>b<M. grid w' ! a ! b
         = setCellValue [] (digitValue (''x9..............'' ! (a * M + b))))" by blast
  from import_outcomes [OF inv sq, of True "''123''"] misfit
  have two: "on_pushButtonImport_clicked True ''123'' window4
     = Inr (window4\<lparr>statusBar := ''Invalid grid size! Only NxN grids supported.''\<rparr>)" by blast
  from import_outcomes [OF inv sq, of False "''123''"] cancelled
  have three: "on_pushButtonImport_clicked False ''123'' window4
     = Inr (window4\<lparr>statusBar := ''Failed to import! Wrong data.''\<rparr>)" by blast
  from sq wd one two three show ?thesis by blast
qed

text \<open>
  Claim C2 as stated fails. In a window with a 4 by 4 grid, a text of 16 characters that
  starts with a letter and the digit 9 is imported: the letter's cell is empty and the
  next cell shows 9. A text of 81 dots, whose length differs from 16, is imported too.
\<close>

theorem import_counterexample:
  "on_pushButtonImport_clicked True ''x9..............'' window4
     = Inr (window4\<lparr>grid := (emptyUIGrid 4)[0 := [[], ''9'', [], []]], statusBar := ''Imported!''\<rparr>) \<and>
   map_sum id statusBar (on_pushButtonImport_clicked True (replicate 81 (CHR ''.'')) window4)
     = Inr ''Imported!''"
  by code_simp

end
